theory Spec2Isabelle
  imports Main "HOL-Library.AList" "HOL-Library.Multiset" "HOL-Library.Char_ord"
    "HOL-Library.List_Lexorder"
begin

section \<open>Data model (hal.go, registry.go)\<close>

text \<open>
  \<^verbatim>\<open>type Link struct\<close> of hal.go.  \<open>Rel\<close> is the key under which the link is stored and
  is not serialised; the other fields are.
\<close>

record Link =
  Rel :: string
  Href :: string
  Templated :: bool
  Type :: string
  Title :: string
  Name :: string
  Method :: string

text \<open>
  The values an envelope's \<^verbatim>\<open>links map[string]any\<close> holds: a \<^verbatim>\<open>Link\<close> (stored by
  \<^verbatim>\<open>AddLink\<close>), a \<^verbatim>\<open>[]Link\<close> (the resolved curies stored by \<^verbatim>\<open>marshalMeta\<close>), or the
  \<^verbatim>\<open>[]any\<close> that \<^verbatim>\<open>addLinkRaw\<close> builds on a collision.
\<close>

datatype linkval = Single Link | LinkSlice "Link list" | AnySlice "linkval list"

text \<open>
  What \<^verbatim>\<open>reflect.Type\<close> is used for: a map key with equality, \<^verbatim>\<open>Kind()\<close>, \<^verbatim>\<open>Elem()\<close> and
  \<^verbatim>\<open>reflect.PointerTo\<close>.  \<open>StructT\<close> is a struct type, \<open>PtrT t\<close> the unnamed pointer type
  \<^verbatim>\<open>*t\<close>, \<open>SliceT t\<close> the slice type \<^verbatim>\<open>[]t\<close>, \<open>NamedT n u\<close> a defined type with underlying
  type \<open>u\<close>, and \<open>BasicT\<close> every type of any other kind.
\<close>

datatype gotype = StructT string | PtrT gotype | SliceT gotype | BasicT string
  | NamedT string gotype

datatype kind = Struct | Ptr | Slice | OtherKind

fun Kind :: "gotype \<Rightarrow> kind" where
  "Kind (StructT _) = Struct"
| "Kind (PtrT _) = Ptr"
| "Kind (SliceT _) = Slice"
| "Kind (BasicT _) = OtherKind"
| "Kind (NamedT _ u) = Kind u"

text \<open>\<^verbatim>\<open>t.Elem()\<close>; the source calls it only behind \<^verbatim>\<open>t.Kind() == reflect.Ptr\<close>.\<close>

fun Elem :: "gotype \<Rightarrow> gotype option" where
  "Elem (PtrT t) = Some t"
| "Elem (SliceT t) = Some t"
| "Elem (NamedT _ u) = Elem u"
| "Elem _ = None"

definition PointerTo :: "gotype \<Rightarrow> gotype" where
  "PointerTo t = PtrT t"

text \<open>
  Every way an operation of the package can fail: the two errors \<^verbatim>\<open>MarshalJSON\<close> returns
  (the external encoder's own error, passed on untouched, and the data-shape error
  \<^verbatim>\<open>hal: data must be a JSON object to splice\<close>), and the panics.
\<close>

datatype failure =
    EncoderError string
  | NotObjectError
  | PanicTypeMismatch gotype gotype
  | PanicNoGenerator gotype
  | PanicNotSlice
  | PanicSliceBounds

fun is_panic :: "failure \<Rightarrow> bool" where
  "is_panic (EncoderError _) = False"
| "is_panic NotObjectError = False"
| "is_panic _ = True"

text \<open>
  A non-nil Go value held in an \<^verbatim>\<open>any\<close>, as far as the package looks at it: its dynamic
  type (\<^verbatim>\<open>reflect.TypeOf\<close>), what \<^verbatim>\<open>json.Marshal\<close> returns for it (the external encoder is
  a black box), and the value itself for the generators.  A nil interface is \<open>None\<close>.
\<close>

datatype 'a govalue = GoValue (TypeOf: gotype) (json_Marshal: "failure + string") (repr: 'a)

type_synonym ('c, 'a) Generator = "'c \<Rightarrow> 'a govalue \<Rightarrow> Link list"

text \<open>
  \<^verbatim>\<open>type Instance struct\<close> of registry.go, without the lock.  The three Go maps are
  association lists with distinct keys, written only through \<open>AList.update\<close> and read
  only through \<open>map_of\<close> and \<open>length\<close>.
\<close>

record ('c, 'a) Instance =
  generators :: "(gotype \<times> ('c, 'a) Generator) list"
  curies :: "(string \<times> string) list"
  strictMode :: bool

text \<open>
  \<^verbatim>\<open>type Envelope struct\<close> of hal.go.  The field \<^verbatim>\<open>instance\<close> is called \<open>inst\<close> here; it holds
  the registry the envelope points to.  An embedded value is kept like the wrapped one.
\<close>

record ('c, 'a) Envelope =
  Data :: "'a govalue option"
  inst :: "('c, 'a) Instance"
  links :: "(string \<times> linkval) list"
  embedded :: "(string \<times> 'a govalue) list"

section \<open>Registry (registry.go)\<close>

definition New :: "bool \<Rightarrow> ('c, 'a) Instance" where
  "New strict = \<lparr>generators = [], curies = [], strictMode = strict\<rparr>"

definition RegisterCurie :: "string \<Rightarrow> string \<Rightarrow> ('c, 'a) Instance \<Rightarrow> ('c, 'a) Instance" where
  "RegisterCurie prefix href i = i\<lparr>curies := AList.update prefix href (curies i)\<rparr>"

text \<open>
  \<^verbatim>\<open>RegisterInstance[T]\<close>: the generator for \<^verbatim>\<open>T\<close> is stored under the key \<^verbatim>\<open>*T\<close>
  (\<^verbatim>\<open>reflect.TypeOf((*T)(nil))\<close>).
\<close>

definition RegisterInstance ::
  "gotype \<Rightarrow> ('c, 'a) Generator \<Rightarrow> ('c, 'a) Instance \<Rightarrow> ('c, 'a) Instance" where
  "RegisterInstance T gen i = i\<lparr>generators := AList.update (PtrT T) gen (generators i)\<rparr>"

definition lookupGenerator :: "('c, 'a) Instance \<Rightarrow> gotype \<Rightarrow> ('c, 'a) Generator option" where
  "lookupGenerator i t = map_of (generators i) t"

text \<open>
  \<^verbatim>\<open>strings.IndexByte\<close>: the index of the first occurrence of the byte, or \<open>-1\<close>.
\<close>

fun IndexByte :: "string \<Rightarrow> char \<Rightarrow> int" where
  "IndexByte [] c = - 1"
| "IndexByte (x # xs) c =
     (if x = c then 0 else (let r = IndexByte xs c in if r < 0 then - 1 else r + 1))"

text \<open>The link appended by one pass of the loop of \<^verbatim>\<open>resolveCuries\<close>.\<close>

definition curieLink :: "string \<Rightarrow> string \<Rightarrow> Link" where
  "curieLink prefix href =
     \<lparr>Rel = ''curies'', Href = href, Templated = True, Type = '''', Title = '''',
      Name = prefix, Method = ''''\<rparr>"

text \<open>
  One pass of \<^verbatim>\<open>for rel := range links\<close> in \<^verbatim>\<open>resolveCuries\<close>.
\<close>

definition resolveStep :: "(string \<times> string) list \<Rightarrow> string \<Rightarrow> Link list \<Rightarrow> Link list" where
  "resolveStep cur rel used =
     (let idx = IndexByte rel (CHR '':'') in
      if idx > 0 then
        (let prefix = take (nat idx) rel in
         case map_of cur prefix of
           Some href \<Rightarrow> used @ [curieLink prefix href]
         | None \<Rightarrow> used)
      else used)"

text \<open>
  \<^verbatim>\<open>resolveCuries\<close>.  Go leaves the order in which \<^verbatim>\<open>range\<close> visits the keys of a map
  open, so the order is an argument: \<open>ks\<close> is the sequence of keys the loop visits,
  a \<open>range_order\<close> of the map.
\<close>

definition range_order :: "(string \<times> 'v) list \<Rightarrow> string list \<Rightarrow> bool" where
  "range_order m ks = (mset ks = mset (map fst m))"

definition resolveCuries ::
  "('c, 'a) Instance \<Rightarrow> (string \<times> linkval) list \<Rightarrow> string list \<Rightarrow> Link list" where
  "resolveCuries i lks ks =
     (if length (curies i) = 0 \<or> length lks = 0 then []
      else fold (resolveStep (curies i)) ks [])"

section \<open>Envelope (marshal.go)\<close>

definition addLinkRaw ::
  "string \<Rightarrow> linkval \<Rightarrow> ('c, 'a) Envelope \<Rightarrow> ('c, 'a) Envelope" where
  "addLinkRaw rel val e =
     (case map_of (links e) rel of
        Some existing \<Rightarrow>
          (case existing of
             AnySlice slice \<Rightarrow> e\<lparr>links := AList.update rel (AnySlice (slice @ [val])) (links e)\<rparr>
           | _ \<Rightarrow> e\<lparr>links := AList.update rel (AnySlice [existing, val]) (links e)\<rparr>)
      | None \<Rightarrow> e\<lparr>links := AList.update rel val (links e)\<rparr>)"

definition AddLink :: "Link \<Rightarrow> ('c, 'a) Envelope \<Rightarrow> ('c, 'a) Envelope" where
  "AddLink l e = addLinkRaw (Rel l) (Single l) e"

text \<open>
  \<^verbatim>\<open>computeLinks\<close>: the links of the generator are added one by one; in strict mode a
  missing generator panics as the source does.
\<close>

definition computeLinks :: "'c \<Rightarrow> ('c, 'a) Envelope \<Rightarrow> failure + ('c, 'a) Envelope" where
  "computeLinks ctx e =
     (case Data e of
        None \<Rightarrow> Inr e
      | Some v \<Rightarrow>
          (let t = TypeOf v in
           case lookupGenerator (inst e) t of
             Some gen \<Rightarrow> Inr (fold AddLink (gen ctx v) e)
           | None \<Rightarrow>
               if strictMode (inst e) then
                 (let ptrT = PointerTo t in
                  if lookupGenerator (inst e) ptrT \<noteq> None then Inl (PanicTypeMismatch t ptrT)
                  else if Kind t = Struct \<or> (Kind t = Ptr \<and> map_option Kind (Elem t) = Some Struct)
                  then Inl (PanicNoGenerator t)
                  else Inr e)
               else Inr e))"

definition Wrap ::
  "('c, 'a) Instance \<Rightarrow> 'c \<Rightarrow> 'a govalue option \<Rightarrow> failure + ('c, 'a) Envelope" where
  "Wrap i ctx d = computeLinks ctx \<lparr>Data = d, inst = i, links = [], embedded = []\<rparr>"

section \<open>Encoding (marshal.go)\<close>

text \<open>
  \<^verbatim>\<open>bytes.TrimSpace\<close> on the ASCII white space characters.  The bytes trimmed here come
  from the JSON encoder, whose output starts and ends with an ASCII byte, so the
  Unicode white space that Go trims as well is left out.
\<close>

definition isSpace :: "char \<Rightarrow> bool" where
  "isSpace c = (c = CHR 0x09 \<or> c = CHR 0x0A \<or> c = CHR 0x0B \<or> c = CHR 0x0C \<or> c = CHR 0x0D
     \<or> c = CHR 0x20)"

definition TrimSpace :: "string \<Rightarrow> string" where
  "TrimSpace b = rev (dropWhile isSpace (rev (dropWhile isSpace b)))"

definition marshalData :: "('c, 'a) Envelope \<Rightarrow> failure + string" where
  "marshalData e =
     (case Data e of
        None \<Rightarrow> Inr []
      | Some v \<Rightarrow> (case json_Marshal v of Inl err \<Rightarrow> Inl err | Inr b \<Rightarrow> Inr (TrimSpace b)))"

text \<open>\<^verbatim>\<open>checkJSONStructure\<close> returns \<open>(isNull, isEmptyObject)\<close> or the data-shape error.\<close>

definition checkJSONStructure :: "string \<Rightarrow> failure + (bool \<times> bool)" where
  "checkJSONStructure b =
     (if length b = 0 \<or> b = ''null'' then Inr (True, False)
      else if hd b \<noteq> CHR ''{'' then Inl NotObjectError
      else if length b = 2 \<and> b ! 1 = CHR ''}'' then Inr (False, True)
      else Inr (False, False))"

text \<open>
  \<^verbatim>\<open>spliceJSON\<close>.  The slice expression \<^verbatim>\<open>data[:len(data)-1]\<close> panics on empty data; the
  other slice, \<^verbatim>\<open>meta[1:]\<close>, is reached with non-empty \<open>meta\<close> only.
\<close>

definition spliceJSON :: "string \<Rightarrow> string \<Rightarrow> bool \<Rightarrow> bool \<Rightarrow> failure + string" where
  "spliceJSON data meta isDataNull isDataEmptyObj =
     (if length meta = 0 then (if isDataNull then Inr ''{}'' else Inr data)
      else if isDataNull \<or> isDataEmptyObj then Inr meta
      else if length data = 0 then Inl PanicSliceBounds
      else Inr (take (length data - 1) data @ '','' @ drop 1 meta))"

subsection \<open>The external encoder on the metadata\<close>

text \<open>
  \<^verbatim>\<open>json.Marshal(meta)\<close> belongs to Go's \<^verbatim>\<open>encoding/json\<close>, not to the package.  Its output
  on the metadata map is written out here as the library documents it: compact, the
  keys of a map in byte-wise sorted order, the fields of \<^verbatim>\<open>Link\<close> in declaration order
  with the \<^verbatim>\<open>omitempty\<close> ones left out when zero and \<^verbatim>\<open>Rel\<close> never written.  How a string
  is quoted and escaped is left to the argument \<open>jstr\<close>.
\<close>

definition quoted :: "string \<Rightarrow> string" where
  "quoted s = CHR 0x22 # s @ [CHR 0x22]"

fun commaJoin :: "string list \<Rightarrow> string" where
  "commaJoin [] = []"
| "commaJoin [x] = x"
| "commaJoin (x # y # ys) = x @ '','' @ commaJoin (y # ys)"

definition encodeLink :: "(string \<Rightarrow> string) \<Rightarrow> Link \<Rightarrow> string" where
  "encodeLink jstr l =
     ''{'' @ quoted ''href'' @ '':'' @ jstr (Href l)
       @ (if Templated l then '','' @ quoted ''templated'' @ '':true'' else [])
       @ (if Type l \<noteq> [] then '','' @ quoted ''type'' @ '':'' @ jstr (Type l) else [])
       @ (if Title l \<noteq> [] then '','' @ quoted ''title'' @ '':'' @ jstr (Title l) else [])
       @ (if Name l \<noteq> [] then '','' @ quoted ''name'' @ '':'' @ jstr (Name l) else [])
       @ (if Method l \<noteq> [] then '','' @ quoted ''method'' @ '':'' @ jstr (Method l) else [])
       @ ''}''"

text \<open>
  The package stores no empty slice in a link map; an empty one is written \<^verbatim>\<open>[]\<close> here.
\<close>

fun encodeLinkval :: "(string \<Rightarrow> string) \<Rightarrow> linkval \<Rightarrow> string" where
  "encodeLinkval jstr (Single l) = encodeLink jstr l"
| "encodeLinkval jstr (LinkSlice ls) = ''['' @ commaJoin (map (encodeLink jstr) ls) @ '']''"
| "encodeLinkval jstr (AnySlice vs) = ''['' @ commaJoin (map (encodeLinkval jstr) vs) @ '']''"

definition encodeLinks :: "(string \<Rightarrow> string) \<Rightarrow> (string \<times> linkval) list \<Rightarrow> string" where
  "encodeLinks jstr lks =
     ''{'' @ commaJoin (map (\<lambda>(k, v). jstr k @ '':'' @ encodeLinkval jstr v) (sort_key fst lks))
       @ ''}''"

text \<open>The entries of the embedded map in the given order; the first failure ends it.\<close>

fun encodeEntries ::
  "(string \<Rightarrow> string) \<Rightarrow> (string \<times> 'a govalue) list \<Rightarrow> failure + string list" where
  "encodeEntries jstr [] = Inr []"
| "encodeEntries jstr ((k, v) # rest) =
     (case json_Marshal v of
        Inl err \<Rightarrow> Inl err
      | Inr b \<Rightarrow>
          (case encodeEntries jstr rest of
             Inl err \<Rightarrow> Inl err
           | Inr bs \<Rightarrow> Inr ((jstr k @ '':'' @ b) # bs)))"

definition encodeEmbedded ::
  "(string \<Rightarrow> string) \<Rightarrow> (string \<times> 'a govalue) list \<Rightarrow> failure + string" where
  "encodeEmbedded jstr emb =
     (case encodeEntries jstr (sort_key fst emb) of
        Inl err \<Rightarrow> Inl err
      | Inr bs \<Rightarrow> Inr (''{'' @ commaJoin bs @ ''}''))"

text \<open>
  \<^verbatim>\<open>json.Marshal(meta)\<close> for the map \<^verbatim>\<open>meta\<close> that \<^verbatim>\<open>marshalMeta\<close> builds: the key
  \<^verbatim>\<open>_embedded\<close> sorts before \<^verbatim>\<open>_links\<close>.
\<close>

definition json_Marshal_meta ::
  "(string \<Rightarrow> string) \<Rightarrow> (string \<times> linkval) list \<Rightarrow> (string \<times> 'a govalue) list
     \<Rightarrow> failure + string" where
  "json_Marshal_meta jstr lks emb =
     (let linksField =
        (if length lks > 0 then [quoted ''_links'' @ '':'' @ encodeLinks jstr lks] else [])
      in if length emb > 0 then
           (case encodeEmbedded jstr emb of
              Inl err \<Rightarrow> Inl err
            | Inr eb \<Rightarrow>
                Inr (''{'' @ commaJoin ((quoted ''_embedded'' @ '':'' @ eb) # linksField) @ ''}''))
         else Inr (''{'' @ commaJoin linksField @ ''}''))"

text \<open>
  What \<^verbatim>\<open>encoding/json\<close> writes for a string of printable ASCII characters none of which
  it escapes.
\<close>

definition plainString :: "string \<Rightarrow> string" where
  "plainString s = quoted s"

subsection \<open>The encoding hook\<close>

text \<open>
  \<^verbatim>\<open>marshalMeta\<close> changes the envelope (the resolved curies are added to its links), so it
  returns the envelope with its result.  \<open>ks\<close> is the order in which \<^verbatim>\<open>resolveCuries\<close>
  visits the link map.
\<close>

definition injectCuries :: "string list \<Rightarrow> ('c, 'a) Envelope \<Rightarrow> ('c, 'a) Envelope" where
  "injectCuries ks e =
     (let curies = resolveCuries (inst e) (links e) ks in
      if length curies > 0 then addLinkRaw ''curies'' (LinkSlice curies) e else e)"

definition marshalMeta ::
  "(string \<Rightarrow> string) \<Rightarrow> string list \<Rightarrow> ('c, 'a) Envelope
     \<Rightarrow> (failure + string) \<times> ('c, 'a) Envelope" where
  "marshalMeta jstr ks e =
     (let e1 = injectCuries ks e in
      if \<not> length (links e1) > 0 \<and> \<not> length (embedded e1) > 0 then (Inr [], e1)
      else (json_Marshal_meta jstr (links e1) (embedded e1), e1))"

definition MarshalJSON ::
  "(string \<Rightarrow> string) \<Rightarrow> string list \<Rightarrow> ('c, 'a) Envelope
     \<Rightarrow> (failure + string) \<times> ('c, 'a) Envelope" where
  "MarshalJSON jstr ks e =
     (case marshalData e of
        Inl err \<Rightarrow> (Inl err, e)
      | Inr dataBytes \<Rightarrow>
          (case checkJSONStructure dataBytes of
             Inl err \<Rightarrow> (Inl err, e)
           | Inr (isDataNull, isEmptyObj) \<Rightarrow>
               (case marshalMeta jstr ks e of
                  (Inl err, e1) \<Rightarrow> (Inl err, e1)
                | (Inr metaBytes, e1) \<Rightarrow>
                    (spliceJSON dataBytes metaBytes isDataNull isEmptyObj, e1))))"

text \<open>
  The second source file with a \<^verbatim>\<open>MarshalJSON\<close> writes all steps in one function.  It
  differs in how it classifies the data: the test for a non-object sits behind
  \<^verbatim>\<open>len(dataBytes) >= 2\<close>, and an empty object may have white space between its braces.
\<close>

definition MarshalJSON_inline ::
  "(string \<Rightarrow> string) \<Rightarrow> string list \<Rightarrow> ('c, 'a) Envelope
     \<Rightarrow> (failure + string) \<times> ('c, 'a) Envelope" where
  "MarshalJSON_inline jstr ks e =
     (case (case Data e of None \<Rightarrow> Inr [] | Some v \<Rightarrow> json_Marshal v) of
        Inl err \<Rightarrow> (Inl err, e)
      | Inr raw \<Rightarrow>
          (let dataBytes = TrimSpace raw;
               isDataNull = (length dataBytes = 0 \<or> dataBytes = ''null'')
           in case (if \<not> isDataNull \<and> length dataBytes \<ge> 2 then
                      (if hd dataBytes = CHR ''{'' then
                         (let rest = TrimSpace (tl dataBytes)
                          in Inr (length rest = 1 \<and> hd rest = CHR ''}''))
                       else Inl NotObjectError)
                    else Inr False) of
                Inl err \<Rightarrow> (Inl err, e)
              | Inr isDataEmptyObj \<Rightarrow>
                  (let e1 = injectCuries ks e
                   in if \<not> length (links e1) > 0 \<and> \<not> length (embedded e1) > 0
                      then ((if isDataNull then Inr ''{}'' else Inr dataBytes), e1)
                      else
                        (case json_Marshal_meta jstr (links e1) (embedded e1) of
                           Inl err \<Rightarrow> (Inl err, e1)
                         | Inr metaBytes \<Rightarrow>
                             if isDataNull \<or> isDataEmptyObj then (Inr metaBytes, e1)
                             else (Inr (take (length dataBytes - 1) dataBytes @ '','' @
                                        drop 1 metaBytes), e1)))))"

section \<open>Collections (collection.go)\<close>

record ('c, 'a) CollectionPage =
  Links :: "(string \<times> linkval) list"
  Embedded :: "(string \<times> ('c, 'a) Envelope list) list"
  Count :: int
  Total :: int

text \<open>
  The argument \<^verbatim>\<open>items any\<close>: a slice, with its elements as \<^verbatim>\<open>val.Index(idx).Interface()\<close>
  yields them, or a value of any other kind (the nil interface among them).
\<close>

datatype 'a goitems = SliceItems "'a govalue option list" | NonSlice

text \<open>The loop of \<^verbatim>\<open>Collection\<close>; a panic of \<^verbatim>\<open>Wrap\<close> ends it.\<close>

fun wrapEach ::
  "('c, 'a) Instance \<Rightarrow> 'c \<Rightarrow> 'a govalue option list \<Rightarrow> failure + ('c, 'a) Envelope list" where
  "wrapEach i ctx [] = Inr []"
| "wrapEach i ctx (item # rest) =
     (case Wrap i ctx item of
        Inl p \<Rightarrow> Inl p
      | Inr e \<Rightarrow> (case wrapEach i ctx rest of Inl p \<Rightarrow> Inl p | Inr es \<Rightarrow> Inr (e # es)))"

definition Collection ::
  "('c, 'a) Instance \<Rightarrow> 'c \<Rightarrow> 'a goitems \<Rightarrow> int \<Rightarrow> Link \<Rightarrow> failure + ('c, 'a) CollectionPage" where
  "Collection i ctx items tot selfLink =
     (case items of
        NonSlice \<Rightarrow> Inl PanicNotSlice
      | SliceItems xs \<Rightarrow>
          (case wrapEach i ctx xs of
             Inl p \<Rightarrow> Inl p
           | Inr embeddedItems \<Rightarrow>
               Inr \<lparr>Links = AList.update ''self'' (Single selfLink) [],
                    Embedded = [(''items'', embeddedItems)],
                    Count = int (length xs),
                    Total = tot\<rparr>))"

section \<open>Auxiliary notions for the statements\<close>

text \<open>
  What is stored under a relation after the links \<open>xs\<close> were added under it, in this
  order.
\<close>

fun stored :: "Link list \<Rightarrow> linkval option" where
  "stored [] = None"
| "stored [x] = Some (Single x)"
| "stored xs = Some (AnySlice (map Single xs))"

text \<open>
  The test of \<^verbatim>\<open>computeLinks\<close> for a struct or a pointer to a struct.
\<close>

definition structured :: "gotype \<Rightarrow> bool" where
  "structured t = (Kind t = Struct \<or> (Kind t = Ptr \<and> map_option Kind (Elem t) = Some Struct))"

text \<open>The composite literal \<^verbatim>\<open>Link{Rel: rel, Href: href}\<close>.\<close>

definition newLink :: "string \<Rightarrow> string \<Rightarrow> Link" where
  "newLink rel href =
     \<lparr>Rel = rel, Href = href, Templated = False, Type = [], Title = [], Name = [],
      Method = []\<rparr>"

text \<open>The envelope \<^verbatim>\<open>Wrap\<close> allocates before it computes the links.\<close>

definition bare :: "('c, 'a) Instance \<Rightarrow> 'a govalue option \<Rightarrow> ('c, 'a) Envelope" where
  "bare i d = \<lparr>Data = d, inst = i, links = [], embedded = []\<rparr>"

text \<open>Sample inputs: a generator without links, values of a struct type, of the pointer
  to it and of \<^verbatim>\<open>int\<close>.\<close>

definition genNone :: "(unit, unit) Generator" where
  "genNone ctx v = []"

definition userValue :: "unit govalue" where
  "userValue = GoValue (StructT ''User'') (Inr ''{}'') ()"

definition userPtr :: "unit govalue" where
  "userPtr = GoValue (PtrT (StructT ''User'')) (Inr ''{}'') ()"

definition int42 :: "unit govalue" where
  "int42 = GoValue (BasicT ''int'') (Inr ''42'') ()"

text \<open>More sample inputs: values that serialise to an object, to the empty object, to
  \<^verbatim>\<open>null\<close> (a nil pointer) and to a one-digit number; an envelope holding one link.\<close>

definition objValue :: "unit govalue" where
  \<open>objValue = GoValue (PtrT (StructT ''User'')) (Inr ''{"id":1}'') ()\<close>

definition emptyObjValue :: "unit govalue" where
  "emptyObjValue = GoValue (PtrT (StructT ''Empty'')) (Inr ''{}'') ()"


definition int7 :: "unit govalue" where
  "int7 = GoValue (BasicT ''int'') (Inr ''7'') ()"

definition linked :: "unit govalue option \<Rightarrow> (unit, unit) Envelope" where
  "linked d = AddLink (newLink ''self'' ''/users/1'') (bare (New False) d)"

text \<open>A permissive registry without generators or curies.\<close>

definition permissive :: "(unit, unit) Instance" where
  "permissive = New False"

text \<open>
  The prefix that the loop of \<^verbatim>\<open>resolveCuries\<close> cuts from a relation name, when it cuts
  one, and the links one pass of the loop appends.
\<close>

definition curiePrefix :: "string \<Rightarrow> string option" where
  "curiePrefix rel =
     (let idx = IndexByte rel (CHR '':'') in if idx > 0 then Some (take (nat idx) rel) else None)"

definition resolved :: "(string \<times> string) list \<Rightarrow> string \<Rightarrow> Link list" where
  "resolved cur rel =
     (case curiePrefix rel of
        Some prefix \<Rightarrow> (case map_of cur prefix of Some href \<Rightarrow> [curieLink prefix href] | None \<Rightarrow> [])
      | None \<Rightarrow> [])"

text \<open>Sample registries with one and two CURIE prefixes, and sample link maps.\<close>

definition acmeInstance :: "(unit, unit) Instance" where
  "acmeInstance = RegisterCurie ''acme'' ''https://docs/{rel}'' (New False)"

definition docInstance :: "(unit, unit) Instance" where
  "docInstance = RegisterCurie ''doc'' ''https://doc/{rel}'' acmeInstance"

definition twoPrefixes :: "(unit, unit) Envelope" where
  "twoPrefixes =
     fold AddLink [newLink ''acme:a'' ''/a'', newLink ''doc:b'' ''/b'']
       (bare docInstance (Some objValue))"

definition samePrefix :: "(string \<times> linkval) list" where
  "samePrefix =
     links (fold AddLink [newLink ''acme:a'' ''/a'', newLink ''acme:b'' ''/b'']
       (bare acmeInstance None))"

definition acmeEnvelope :: "(unit, unit) Envelope" where
  "acmeEnvelope =
     fold AddLink [newLink ''self'' ''/x'', newLink ''acme:test'' ''/x'']
       (bare acmeInstance (Some objValue))"

definition onePrefix :: "(string \<times> linkval) list" where
  "onePrefix = links acmeEnvelope"

section \<open>Adding links\<close>

lemma map_of_addLinkRaw:
  "map_of (links (addLinkRaw rel val e)) r =
     (if r = rel then
        (case map_of (links e) rel of
           None \<Rightarrow> Some val
         | Some (AnySlice slice) \<Rightarrow> Some (AnySlice (slice @ [val]))
         | Some existing \<Rightarrow> Some (AnySlice [existing, val]))
      else map_of (links e) r)"
  by (simp add: addLinkRaw_def update_conv' split: option.splits linkval.splits)

lemma stored_snoc:
  "(case stored xs of
      None \<Rightarrow> Some (Single l)
    | Some (AnySlice slice) \<Rightarrow> Some (AnySlice (slice @ [Single l]))
    | Some existing \<Rightarrow> Some (AnySlice [existing, Single l])) = stored (xs @ [l])"
  by (cases xs rule: stored.cases) simp_all

lemma map_of_AddLink_stored:
  assumes "map_of (links e) r = stored xs"
  shows "map_of (links (AddLink l e)) r = stored (xs @ (if Rel l = r then [l] else []))"
proof (cases "Rel l = r")
  case True
  with assms have "map_of (links e) (Rel l) = stored xs" by simp
  with True show ?thesis
    by (simp add: AddLink_def map_of_addLinkRaw stored_snoc)
next
  case False
  with assms show ?thesis
    by (simp add: AddLink_def map_of_addLinkRaw)
qed

lemma map_of_fold_AddLink:
  assumes "map_of (links e) r = stored xs"
  shows "map_of (links (fold AddLink ls e)) r = stored (xs @ filter (\<lambda>l. Rel l = r) ls)"
  using assms
proof (induction ls arbitrary: e xs)
  case Nil
  then show ?case by simp
next
  case (Cons l ls)
  from map_of_AddLink_stored [OF Cons.prems, of l]
  have "map_of (links (fold AddLink ls (AddLink l e))) r
          = stored ((xs @ (if Rel l = r then [l] else [])) @ filter (\<lambda>l. Rel l = r) ls)"
    by (rule Cons.IH)
  then show ?case by simp
qed

text \<open>
  C2.  Starting from an envelope that stores nothing under the relation \<open>r\<close>, after any
  sequence \<open>ls\<close> of \<^verbatim>\<open>AddLink\<close> calls the value under \<open>r\<close> is determined by the links of
  \<open>ls\<close> whose relation is \<open>r\<close>, taken in call order: nothing when there is none, the link
  itself when there is one, and otherwise the list of all of them in call order (so the
  second add turns the single link into the two-element list first, second, and every
  later add appends at the end).  And on any envelope at all one \<^verbatim>\<open>AddLink\<close> keeps what is
  stored: a value under the link's relation becomes a list that starts with it (or, when
  it is a list already, grows by the link at its end), and every other relation keeps
  its value.
\<close>

theorem C2_addLink_never_overwrites:
  "(map_of (links e) r = None \<longrightarrow>
      map_of (links (fold AddLink ls e)) r =
        (case filter (\<lambda>l. Rel l = r) ls of
           [] \<Rightarrow> None
         | [x] \<Rightarrow> Some (Single x)
         | x # y # zs \<Rightarrow> Some (AnySlice (Single x # Single y # map Single zs))))
   \<and> map_of (links (AddLink l e)) r =
        (if r = Rel l then
           (case map_of (links e) r of
              None \<Rightarrow> Some (Single l)
            | Some (AnySlice slice) \<Rightarrow> Some (AnySlice (slice @ [Single l]))
            | Some existing \<Rightarrow> Some (AnySlice [existing, Single l]))
         else map_of (links e) r)"
proof (intro conjI impI)
  assume "map_of (links e) r = None"
  then have "map_of (links e) r = stored []" by simp
  from map_of_fold_AddLink [OF this, of ls]
  show "map_of (links (fold AddLink ls e)) r =
        (case filter (\<lambda>l. Rel l = r) ls of
           [] \<Rightarrow> None
         | [x] \<Rightarrow> Some (Single x)
         | x # y # zs \<Rightarrow> Some (AnySlice (Single x # Single y # map Single zs)))"
    by (simp split: list.splits)
next
  show "map_of (links (AddLink l e)) r =
        (if r = Rel l then
           (case map_of (links e) r of
              None \<Rightarrow> Some (Single l)
            | Some (AnySlice slice) \<Rightarrow> Some (AnySlice (slice @ [Single l]))
            | Some existing \<Rightarrow> Some (AnySlice [existing, Single l]))
         else map_of (links e) r)"
    by (simp add: AddLink_def map_of_addLinkRaw)
qed

theorem C2_witness:
  "map_of (links (bare permissive None)) ''self'' = None \<and>
   map_of (links (fold AddLink [newLink ''self'' ''/a'', newLink ''next'' ''/n'',
       newLink ''self'' ''/b'', newLink ''self'' ''/c''] (bare permissive None))) ''self''
   = Some (AnySlice [Single (newLink ''self'' ''/a''), Single (newLink ''self'' ''/b''),
       Single (newLink ''self'' ''/c'')])"
  using C2_addLink_never_overwrites [where e = "bare permissive None" and r = "''self''"
    and ls = "[newLink ''self'' ''/a'', newLink ''next'' ''/n'', newLink ''self'' ''/b'',
      newLink ''self'' ''/c'']"]
  by (simp add: bare_def newLink_def)

section \<open>Wrapping and strict mode\<close>

lemma Wrap_simps:
  "Wrap i ctx None = Inr (bare i None)"
  "lookupGenerator i (TypeOf v) = Some gen \<Longrightarrow>
     Wrap i ctx (Some v) = Inr (fold AddLink (gen ctx v) (bare i (Some v)))"
  "lookupGenerator i (TypeOf v) = None \<Longrightarrow> \<not> strictMode i \<Longrightarrow>
     Wrap i ctx (Some v) = Inr (bare i (Some v))"
  "lookupGenerator i (TypeOf v) = None \<Longrightarrow> strictMode i \<Longrightarrow>
     Wrap i ctx (Some v) =
       (if lookupGenerator i (PtrT (TypeOf v)) \<noteq> None
        then Inl (PanicTypeMismatch (TypeOf v) (PtrT (TypeOf v)))
        else if structured (TypeOf v) then Inl (PanicNoGenerator (TypeOf v))
        else Inr (bare i (Some v)))"
  by (auto simp: Wrap_def computeLinks_def bare_def structured_def PointerTo_def Let_def)

text \<open>
  C3.  In strict mode: a value whose type has no generator while the pointer to its type
  has one makes \<^verbatim>\<open>Wrap\<close> panic with the type mismatch (so a plain struct value whose
  generator was registered for the pointer form does); a value of a struct or
  pointer-to-struct type without a generator always makes it panic, with the
  missing-generator panic when the pointer to its type has no generator either; a value
  of any other type whose pointer form has no generator never makes it panic.  In
  permissive mode \<^verbatim>\<open>Wrap\<close> never fails, and without a generator the envelope has no links.
\<close>

theorem C3_strict_mode:
  "(strictMode i \<and> lookupGenerator i (TypeOf v) = None \<and>
      lookupGenerator i (PtrT (TypeOf v)) \<noteq> None
      \<longrightarrow> Wrap i ctx (Some v) = Inl (PanicTypeMismatch (TypeOf v) (PtrT (TypeOf v))))
   \<and> (strictMode i \<and> structured (TypeOf v) \<and> lookupGenerator i (TypeOf v) = None
      \<longrightarrow> (\<exists>p. Wrap i ctx (Some v) = Inl p \<and> is_panic p))
   \<and> (strictMode i \<and> structured (TypeOf v) \<and> lookupGenerator i (TypeOf v) = None \<and>
      lookupGenerator i (PtrT (TypeOf v)) = None
      \<longrightarrow> Wrap i ctx (Some v) = Inl (PanicNoGenerator (TypeOf v)))
   \<and> (strictMode i \<and> \<not> structured (TypeOf v) \<and> lookupGenerator i (PtrT (TypeOf v)) = None
      \<longrightarrow> (\<exists>e. Wrap i ctx (Some v) = Inr e))
   \<and> (\<not> strictMode i \<longrightarrow> (\<exists>e. Wrap i ctx (Some v) = Inr e))
   \<and> (\<not> strictMode i \<and> lookupGenerator i (TypeOf v) = None
      \<longrightarrow> Wrap i ctx (Some v) = Inr (bare i (Some v)))"
proof (cases "lookupGenerator i (TypeOf v)")
  case None
  then show ?thesis
    by (cases "strictMode i") (simp_all add: Wrap_simps)
next
  case (Some gen)
  then show ?thesis by (simp add: Wrap_simps)
qed

theorem C3_witness:
  "Wrap (RegisterInstance (StructT ''User'') genNone (New True)) () (Some userValue)
     = Inl (PanicTypeMismatch (StructT ''User'') (PtrT (StructT ''User'')))
   \<and> Wrap (New True :: (unit, unit) Instance) () (Some userPtr)
     = Inl (PanicNoGenerator (PtrT (StructT ''User'')))
   \<and> (\<exists>e. Wrap (New True :: (unit, unit) Instance) () (Some int42) = Inr e)
   \<and> Wrap (New False :: (unit, unit) Instance) () (Some userPtr)
     = Inr (bare (New False) (Some userPtr))"
  using
    C3_strict_mode [of "RegisterInstance (StructT ''User'') genNone (New True)" userValue "()"]
    C3_strict_mode [of "New True :: (unit, unit) Instance" userPtr "()"]
    C3_strict_mode [of "New True :: (unit, unit) Instance" int42 "()"]
    C3_strict_mode [of "New False :: (unit, unit) Instance" userPtr "()"]
  by (simp add: New_def RegisterInstance_def lookupGenerator_def structured_def
      userValue_def userPtr_def int42_def)

section \<open>Collections\<close>

lemma wrapEach_length:
  "wrapEach i ctx xs = Inr es \<Longrightarrow>
     length es = length xs \<and> (\<forall>k < length xs. Wrap i ctx (xs ! k) = Inr (es ! k))"
proof (induction xs arbitrary: es)
  case Nil
  then show ?case by simp
next
  case (Cons x xs)
  then obtain e es' where e: "Wrap i ctx x = Inr e" and es': "wrapEach i ctx xs = Inr es'"
    and es: "es = e # es'"
    by (auto split: sum.splits)
  from Cons.IH [OF es'] have "length es' = length xs"
    and nth: "\<And>k. k < length xs \<Longrightarrow> Wrap i ctx (xs ! k) = Inr (es' ! k)" by auto
  then show ?case using e es by (auto simp: nth_Cons split: nat.splits)
qed

lemma wrapEach_succeeds:
  "(\<forall>x \<in> set xs. \<exists>e. Wrap i ctx x = Inr e) \<Longrightarrow> \<exists>es. wrapEach i ctx xs = Inr es"
  by (induction xs) auto

lemma wrapEach_Inr_all:
  "wrapEach i ctx xs = Inr es \<Longrightarrow> x \<in> set xs \<Longrightarrow> \<exists>e. Wrap i ctx x = Inr e"
  by (induction xs arbitrary: es) (auto split: sum.splits)

lemma wrapEach_fails:
  assumes "\<exists>x \<in> set xs. \<exists>p. Wrap i ctx x = Inl p"
  shows "\<exists>p. wrapEach i ctx xs = Inl p"
proof (cases "wrapEach i ctx xs")
  case (Inl p)
  then show ?thesis by blast
next
  case (Inr es)
  from assms obtain x p where "x \<in> set xs" and "Wrap i ctx x = Inl p" by blast
  with wrapEach_Inr_all [OF Inr] show ?thesis by fastforce
qed

lemma Wrap_permissive: "\<not> strictMode i \<Longrightarrow> \<exists>e. Wrap i ctx d = Inr e"
  by (cases d; cases "lookupGenerator i (TypeOf (the d))") (auto simp: Wrap_simps)

text \<open>
  C6 (amended).  A non-slice argument always makes \<^verbatim>\<open>Collection\<close> panic.  For a slice of
  \<open>N\<close> items each of which \<^verbatim>\<open>Wrap\<close> accepts, and any total \<open>T\<close>, it returns a page with count
  \<open>N\<close>, total \<open>T\<close> (no comparison of the two is made) and under \<^verbatim>\<open>items\<close> exactly \<open>N\<close>
  envelopes, the \<open>k\<close>-th being the wrapped \<open>k\<close>-th item.  In permissive mode \<^verbatim>\<open>Wrap\<close> accepts
  every item; when \<^verbatim>\<open>Wrap\<close> panics on some item, so does \<^verbatim>\<open>Collection\<close>.
\<close>

theorem C6_collection:
  "Collection i ctx NonSlice tot selfLink = Inl PanicNotSlice
   \<and> ((\<forall>x \<in> set xs. \<exists>e. Wrap i ctx x = Inr e) \<longrightarrow>
        (\<exists>page es. Collection i ctx (SliceItems xs) tot selfLink = Inr page
           \<and> Count page = int (length xs) \<and> Total page = tot
           \<and> map_of (Embedded page) ''items'' = Some es \<and> length es = length xs
           \<and> (\<forall>k < length xs. Wrap i ctx (xs ! k) = Inr (es ! k))))
   \<and> (\<not> strictMode i \<longrightarrow> (\<forall>x \<in> set xs. \<exists>e. Wrap i ctx x = Inr e))
   \<and> ((\<exists>x \<in> set xs. \<exists>p. Wrap i ctx x = Inl p) \<longrightarrow>
        (\<exists>p. Collection i ctx (SliceItems xs) tot selfLink = Inl p))"
proof (intro conjI impI)
  show "Collection i ctx NonSlice tot selfLink = Inl PanicNotSlice"
    by (simp add: Collection_def)
next
  assume a: "\<forall>x \<in> set xs. \<exists>e. Wrap i ctx x = Inr e"
  from wrapEach_succeeds [OF a] obtain es where es: "wrapEach i ctx xs = Inr es" ..
  from wrapEach_length [OF es] es
  show "\<exists>page es. Collection i ctx (SliceItems xs) tot selfLink = Inr page
           \<and> Count page = int (length xs) \<and> Total page = tot
           \<and> map_of (Embedded page) ''items'' = Some es \<and> length es = length xs
           \<and> (\<forall>k < length xs. Wrap i ctx (xs ! k) = Inr (es ! k))"
    by (simp add: Collection_def)
next
  assume "\<not> strictMode i"
  then show "\<forall>x \<in> set xs. \<exists>e. Wrap i ctx x = Inr e"
    by (simp add: Wrap_permissive)
next
  assume "\<exists>x \<in> set xs. \<exists>p. Wrap i ctx x = Inl p"
  from wrapEach_fails [OF this]
  show "\<exists>p. Collection i ctx (SliceItems xs) tot selfLink = Inl p"
    by (auto simp: Collection_def)
qed

text \<open>
  C6 as stated fails: on a strict registry without generators a one-element slice of
  pointers to a struct does not yield a page, \<^verbatim>\<open>Collection\<close> panics.
\<close>

theorem C6_counterexample:
  "Collection (New True :: (unit, unit) Instance) () (SliceItems [Some userPtr]) 1
     (newLink ''self'' ''/users'') = Inl (PanicNoGenerator (PtrT (StructT ''User'')))"
  by (simp add: Collection_def Wrap_simps New_def lookupGenerator_def structured_def userPtr_def)

theorem C6_witness:
  "(\<exists>page es. Collection (New False :: (unit, unit) Instance) () (SliceItems [Some userPtr, Some userValue]) 7
       (newLink ''self'' ''/users'') = Inr page
     \<and> Count page = 2 \<and> Total page = 7 \<and> map_of (Embedded page) ''items'' = Some es
     \<and> length es = 2)
   \<and> (\<exists>p. Collection (New True :: (unit, unit) Instance) () (SliceItems [Some userPtr]) 1
       (newLink ''self'' ''/users'') = Inl p)"
proof -
  have ok: "\<forall>x \<in> set [Some userPtr, Some userValue].
      \<exists>e. Wrap (New False :: (unit, unit) Instance) () x = Inr e"
    by (simp add: Wrap_simps New_def lookupGenerator_def)
  have bad: "\<exists>x \<in> set [Some userPtr].
      \<exists>p. Wrap (New True :: (unit, unit) Instance) () x = Inl p"
    by (simp add: Wrap_simps New_def lookupGenerator_def structured_def userPtr_def)
  from ok C6_collection [of "New False :: (unit, unit) Instance" "()" 7
      "newLink ''self'' ''/users''" "[Some userPtr, Some userValue]"]
  have "\<exists>page es. Collection (New False :: (unit, unit) Instance) ()
         (SliceItems [Some userPtr, Some userValue]) 7 (newLink ''self'' ''/users'') = Inr page
       \<and> Count page = 2 \<and> Total page = 7 \<and> map_of (Embedded page) ''items'' = Some es
       \<and> length es = 2"
    by fastforce
  moreover from bad C6_collection [of "New True :: (unit, unit) Instance" "()" 1
      "newLink ''self'' ''/users''" "[Some userPtr]"]
  have "\<exists>p. Collection (New True :: (unit, unit) Instance) () (SliceItems [Some userPtr]) 1
       (newLink ''self'' ''/users'') = Inl p"
    by blast
  ultimately show ?thesis by blast
qed

text \<open>
  C9.  Whenever \<^verbatim>\<open>Collection\<close> returns a page, the links of the page are exactly the caller's
  link stored under \<^verbatim>\<open>self\<close>, whatever the \<open>Rel\<close> field of that link is; and on a permissive
  registry it returns such a page for every slice.
\<close>

theorem C9_collection_self:
  "(\<forall>page. Collection i ctx items tot selfLink = Inr page \<longrightarrow>
        Links page = [(''self'', Single selfLink)]
        \<and> map_of (Links page) ''self'' = Some (Single selfLink))
   \<and> (\<not> strictMode i \<longrightarrow>
        (\<exists>page. Collection i ctx (SliceItems xs) tot selfLink = Inr page
           \<and> Links page = [(''self'', Single selfLink)]))"
proof (intro conjI allI impI)
  fix page
  assume "Collection i ctx items tot selfLink = Inr page"
  then show "Links page = [(''self'', Single selfLink)]"
    by (auto simp: Collection_def split: goitems.splits sum.splits)
  then show "map_of (Links page) ''self'' = Some (Single selfLink)" by simp
next
  assume "\<not> strictMode i"
  then have "\<forall>x \<in> set xs. \<exists>e. Wrap i ctx x = Inr e" by (simp add: Wrap_permissive)
  from wrapEach_succeeds [OF this] obtain es where "wrapEach i ctx xs = Inr es" ..
  then show "\<exists>page. Collection i ctx (SliceItems xs) tot selfLink = Inr page
           \<and> Links page = [(''self'', Single selfLink)]"
    by (simp add: Collection_def)
qed

theorem C9_witness:
  "(\<exists>page. Collection permissive () (SliceItems [Some userPtr]) 1 (newLink ''next'' ''/next'')
        = Inr page
      \<and> Links page = [(''self'', Single (newLink ''next'' ''/next''))])
   \<and> Rel (newLink ''next'' ''/next'') = ''next''"
proof -
  have a: "\<not> strictMode permissive" by (simp add: permissive_def New_def)
  from C9_collection_self [of permissive "()" "SliceItems [Some userPtr]" 1
      "newLink ''next'' ''/next''" "[Some userPtr]"] a
  have "\<exists>page. Collection permissive () (SliceItems [Some userPtr]) 1
        (newLink ''next'' ''/next'') = Inr page
      \<and> Links page = [(''self'', Single (newLink ''next'' ''/next''))]"
    by blast
  then show ?thesis by (simp add: newLink_def)
qed

section \<open>Encoding\<close>

lemma checkJSONStructure_Inr:
  "checkJSONStructure d = Inr (isNull, isEmpty) \<longleftrightarrow>
     (isNull \<longleftrightarrow> d = [] \<or> d = ''null'') \<and> (isEmpty \<longleftrightarrow> d = ''{}'') \<and>
     (\<not> isNull \<longrightarrow> hd d = CHR ''{'')"
proof (cases "d = [] \<or> d = ''null''")
  case True
  then show ?thesis by (auto simp: checkJSONStructure_def)
next
  case False
  then obtain c cs where d: "d = c # cs" by (cases d) auto
  have two: "(length d = 2 \<and> d ! 1 = CHR ''}'' \<and> c = CHR ''{'') \<longleftrightarrow> d = ''{}''"
    unfolding d by (cases cs; cases "tl cs") auto
  from False two show ?thesis
    unfolding d by (auto simp: checkJSONStructure_def)
qed

lemma checkJSONStructure_Inl:
  "checkJSONStructure d = Inl err \<longleftrightarrow>
     err = NotObjectError \<and> d \<noteq> [] \<and> d \<noteq> ''null'' \<and> hd d \<noteq> CHR ''{''"
  by (auto simp: checkJSONStructure_def)

lemma spliceJSON_cases:
  "spliceJSON d [] True isEmpty = Inr ''{}''"
  "spliceJSON d [] False isEmpty = Inr d"
  "m \<noteq> [] \<Longrightarrow> isNull \<or> isEmpty \<Longrightarrow> spliceJSON d m isNull isEmpty = Inr m"
  "m \<noteq> [] \<Longrightarrow> d \<noteq> [] \<Longrightarrow> spliceJSON d m False False = Inr (butlast d @ '','' @ tl m)"
  by (auto simp: spliceJSON_def butlast_conv_take drop_Suc)

lemma json_Marshal_meta_nonempty: "json_Marshal_meta jstr lks emb = Inr m \<Longrightarrow> m \<noteq> []"
  by (auto simp: json_Marshal_meta_def Let_def split: if_splits sum.splits)

lemma marshalMeta_cases:
  "marshalMeta jstr ks e = (r, e1) \<longleftrightarrow>
     e1 = injectCuries ks e \<and>
     r = (if links e1 = [] \<and> embedded e1 = [] then Inr []
          else json_Marshal_meta jstr (links e1) (embedded e1))"
  by (auto simp: marshalMeta_def Let_def)

lemma MarshalJSON_splice:
  assumes "marshalData e = Inr d" and "checkJSONStructure d = Inr (isNull, isEmpty)"
    and "marshalMeta jstr ks e = (Inr m, e1)"
  shows "MarshalJSON jstr ks e = (spliceJSON d m isNull isEmpty, e1)"
  using assms by (simp add: MarshalJSON_def)

lemma marshalData_Inr:
  "marshalData e = Inr d \<longleftrightarrow>
     (\<exists>raw. (case Data e of None \<Rightarrow> Inr [] | Some v \<Rightarrow> json_Marshal v) = Inr raw \<and>
        d = TrimSpace raw)"
  by (auto simp: marshalData_def TrimSpace_def split: option.splits sum.splits)

lemma MarshalJSON_inline_splice:
  assumes d: "marshalData e = Inr d"
    and ok: "\<not> (d \<noteq> [] \<and> d \<noteq> ''null'' \<and> length d \<ge> 2 \<and> hd d \<noteq> CHR ''{'')"
    and m: "marshalMeta jstr ks e = (Inr m, e1)"
  shows "MarshalJSON_inline jstr ks e =
     (spliceJSON d m (d = [] \<or> d = ''null'')
        (d \<noteq> [] \<and> d \<noteq> ''null'' \<and> length d \<ge> 2 \<and> hd d = CHR ''{'' \<and>
         length (TrimSpace (tl d)) = 1 \<and> hd (TrimSpace (tl d)) = CHR ''}''), e1)"
proof -
  from d obtain raw where raw: "(case Data e of None \<Rightarrow> Inr [] | Some v \<Rightarrow> json_Marshal v) = Inr raw"
    and dr: "d = TrimSpace raw"
    by (auto simp: marshalData_Inr)
  from m have e1: "e1 = injectCuries ks e"
    and mm: "Inr m = (if links e1 = [] \<and> embedded e1 = [] then Inr []
          else json_Marshal_meta jstr (links e1) (embedded e1))"
    by (simp_all add: marshalMeta_cases)
  show ?thesis
  proof (cases "links e1 = [] \<and> embedded e1 = []")
    case True
    with mm have "m = []" by simp
    with True raw dr e1 ok show ?thesis
      by (auto simp: MarshalJSON_inline_def Let_def spliceJSON_def)
  next
    case False
    with mm have j: "json_Marshal_meta jstr (links e1) (embedded e1) = Inr m" by simp
    then have "m \<noteq> []" by (rule json_Marshal_meta_nonempty)
    with False raw dr e1 ok j show ?thesis
      by (auto simp: MarshalJSON_inline_def Let_def spliceJSON_def)
  qed
qed

text \<open>
  C1.  For an envelope whose data serialises to \<open>d\<close> with the classification
  \<open>(isNull, isEmpty)\<close> and whose metadata serialises to \<open>m\<close>, \<^verbatim>\<open>MarshalJSON\<close> returns what
  \<^verbatim>\<open>spliceJSON\<close> makes of them (the single-function variant does the same, with an empty
  object allowed to hold white space), an absent record counts as null, and \<^verbatim>\<open>spliceJSON\<close>
  follows the four cases: empty metadata and null data give \<^verbatim>\<open>{}\<close>; empty metadata and
  non-null data give the data unchanged; non-empty metadata and null or empty-object data
  give the metadata unchanged; non-empty metadata and a populated object give the data
  without its last byte, a comma, and the metadata without its first byte, that is, the
  data without its closing brace, a comma and the metadata without its opening brace.
\<close>

theorem C1_four_case_rule:
  assumes "marshalData e = Inr d" and "checkJSONStructure d = Inr (isNull, isEmpty)"
    and "marshalMeta jstr ks e = (Inr m, e1)"
  shows "MarshalJSON jstr ks e = (spliceJSON d m isNull isEmpty, e1)
     \<and> MarshalJSON_inline jstr ks e =
         (spliceJSON d m isNull
            (\<not> isNull \<and> length d \<ge> 2 \<and> TrimSpace (tl d) = ''}''), e1)
     \<and> (Data e = None \<longrightarrow> isNull)
     \<and> (isNull \<longleftrightarrow> d = [] \<or> d = ''null'') \<and> (isEmpty \<longleftrightarrow> d = ''{}'')
     \<and> (\<forall>y. m = [] \<and> isNull \<longrightarrow> spliceJSON d m isNull y = Inr ''{}'')
     \<and> (\<forall>y. m = [] \<and> \<not> isNull \<longrightarrow> spliceJSON d m isNull y = Inr d)
     \<and> (\<forall>y. m \<noteq> [] \<and> (isNull \<or> y) \<longrightarrow> spliceJSON d m isNull y = Inr m)
     \<and> (m \<noteq> [] \<and> \<not> isNull \<longrightarrow>
          spliceJSON d m isNull False = Inr (butlast d @ '','' @ tl m))
     \<and> (\<forall>d' m'. \<not> isNull \<and> d = d' @ ''}'' \<and> m = CHR ''{'' # m' \<longrightarrow>
          spliceJSON d m isNull False = Inr (d' @ '','' @ m'))"
proof -
  from assms(2) have n: "isNull \<longleftrightarrow> d = [] \<or> d = ''null''" and eo: "isEmpty \<longleftrightarrow> d = ''{}''"
    and hd: "\<not> isNull \<Longrightarrow> hd d = CHR ''{''"
    by (simp_all add: checkJSONStructure_Inr)
  have one: "length (TrimSpace (tl d)) = 1 \<and> hd (TrimSpace (tl d)) = CHR ''}''
      \<longleftrightarrow> TrimSpace (tl d) = ''}''"
    by (cases "TrimSpace (tl d)") auto
  have ok: "\<not> (d \<noteq> [] \<and> d \<noteq> ''null'' \<and> length d \<ge> 2 \<and> hd d \<noteq> CHR ''{'')"
    using n hd by auto
  have c2: "MarshalJSON_inline jstr ks e =
         (spliceJSON d m isNull
            (\<not> isNull \<and> length d \<ge> 2 \<and> TrimSpace (tl d) = ''}''), e1)"
    using MarshalJSON_inline_splice [OF assms(1) ok assms(3)] n hd one
    by (cases isNull) auto
  have c3: "Data e = None \<longrightarrow> isNull"
    using assms(1) n by (auto simp: marshalData_def)
  have ne: "\<not> isNull \<Longrightarrow> d \<noteq> []" using n by simp
  have c6: "\<forall>y. m = [] \<and> isNull \<longrightarrow> spliceJSON d m isNull y = Inr ''{}''"
    by (simp add: spliceJSON_cases)
  have c7: "\<forall>y. m = [] \<and> \<not> isNull \<longrightarrow> spliceJSON d m isNull y = Inr d"
    by (simp add: spliceJSON_cases)
  have c8: "\<forall>y. m \<noteq> [] \<and> (isNull \<or> y) \<longrightarrow> spliceJSON d m isNull y = Inr m"
    by (simp add: spliceJSON_cases)
  have c9: "m \<noteq> [] \<and> \<not> isNull \<longrightarrow>
          spliceJSON d m isNull False = Inr (butlast d @ '','' @ tl m)"
    using ne by (simp add: spliceJSON_cases)
  have c10: "\<forall>d' m'. \<not> isNull \<and> d = d' @ ''}'' \<and> m = CHR ''{'' # m' \<longrightarrow>
          spliceJSON d m isNull False = Inr (d' @ '','' @ m')"
    using c9 by auto
  from MarshalJSON_splice [OF assms] c2 c3 n eo c6 c7 c8 c9 c10
  show ?thesis by (intro conjI) assumption+
qed


lemmas encode_defs =
  marshalData_def TrimSpace_def isSpace_def checkJSONStructure_def spliceJSON_def
  marshalMeta_def injectCuries_def resolveCuries_def resolveStep_def curieLink_def
  json_Marshal_meta_def encodeLinks_def encodeEmbedded_def encodeLink_def quoted_def
  plainString_def addLinkRaw_def AddLink_def newLink_def bare_def New_def Let_def

theorem C1_witness:
  \<open>MarshalJSON plainString [] (bare (New False :: (unit, unit) Instance) None)
     = (Inr ''{}'', bare (New False) None)
   \<and> MarshalJSON plainString [] (bare (New False :: (unit, unit) Instance) (Some objValue))
     = (Inr ''{"id":1}'', bare (New False) (Some objValue))
   \<and> MarshalJSON plainString [''self''] (linked (Some emptyObjValue))
     = (Inr ''{"_links":{"self":{"href":"/users/1"}}}'', linked (Some emptyObjValue))
   \<and> MarshalJSON plainString [''self''] (linked (Some objValue))
     = (Inr ''{"id":1,"_links":{"self":{"href":"/users/1"}}}'', linked (Some objValue))
   \<and> MarshalJSON_inline plainString [''self''] (linked (Some objValue))
     = (Inr ''{"id":1,"_links":{"self":{"href":"/users/1"}}}'', linked (Some objValue))\<close>
proof -
  let ?m = \<open>''{"_links":{"self":{"href":"/users/1"}}}''\<close>
  let ?b = "bare (New False :: (unit, unit) Instance)"
  have a1: "marshalData (?b None) = Inr []" by code_simp
  have a2: "checkJSONStructure [] = Inr (True, False)" by code_simp
  have a3: "marshalMeta plainString [] (?b None) = (Inr [], ?b None)"
    by (simp add: encode_defs)
  have b1: \<open>marshalData (?b (Some objValue)) = Inr ''{"id":1}''\<close> by code_simp
  have b2: \<open>checkJSONStructure ''{"id":1}'' = Inr (False, False)\<close> by code_simp
  have b3: "marshalMeta plainString [] (?b (Some objValue)) = (Inr [], ?b (Some objValue))"
    by (simp add: encode_defs)
  have c1: "marshalData (linked (Some emptyObjValue)) = Inr ''{}''" by code_simp
  have c2: "checkJSONStructure ''{}'' = Inr (False, True)" by code_simp
  have c3: "marshalMeta plainString [''self''] (linked (Some emptyObjValue))
      = (Inr ?m, linked (Some emptyObjValue))"
    by (simp add: encode_defs linked_def)
  have d1: \<open>marshalData (linked (Some objValue)) = Inr ''{"id":1}''\<close> by code_simp
  have d3: "marshalMeta plainString [''self''] (linked (Some objValue))
      = (Inr ?m, linked (Some objValue))"
    by (simp add: encode_defs linked_def)
  from C1_four_case_rule [OF a1 a2 a3] C1_four_case_rule [OF b1 b2 b3]
    C1_four_case_rule [OF c1 c2 c3] C1_four_case_rule [OF d1 b2 d3]
  show ?thesis by (simp add: spliceJSON_def TrimSpace_def isSpace_def)
qed

lemma MarshalJSON_inline_meta_error:
  assumes d: "marshalData e = Inr d"
    and ok: "\<not> (d \<noteq> [] \<and> d \<noteq> ''null'' \<and> length d \<ge> 2 \<and> hd d \<noteq> CHR ''{'')"
    and m: "marshalMeta jstr ks e = (Inl err, e1)"
  shows "MarshalJSON_inline jstr ks e = (Inl err, e1)"
proof -
  from d obtain raw where raw: "(case Data e of None \<Rightarrow> Inr [] | Some v \<Rightarrow> json_Marshal v) = Inr raw"
    and dr: "d = TrimSpace raw"
    by (auto simp: marshalData_Inr)
  from m have e1: "e1 = injectCuries ks e"
    and mm: "Inl err = (if links e1 = [] \<and> embedded e1 = [] then Inr []
          else json_Marshal_meta jstr (links e1) (embedded e1))"
    by (simp_all add: marshalMeta_cases)
  from mm have ne: "\<not> (links e1 = [] \<and> embedded e1 = [])"
    and j: "json_Marshal_meta jstr (links e1) (embedded e1) = Inl err"
    by (auto split: if_splits)
  with raw dr e1 ok show ?thesis
    by (auto simp: MarshalJSON_inline_def Let_def)
qed

text \<open>
  The two variants of \<^verbatim>\<open>MarshalJSON\<close> agree except on a one-byte serialisation and on an
  empty object with white space between its braces.
\<close>

lemma MarshalJSON_inline_agrees:
  assumes "length (TrimSpace raw) \<noteq> 1"
    and "TrimSpace (tl (TrimSpace raw)) = ''}'' \<longrightarrow> TrimSpace raw = ''{}''"
    and "(case Data e of None \<Rightarrow> Inr [] | Some v \<Rightarrow> json_Marshal v) = Inr raw"
  shows "MarshalJSON_inline jstr ks e = MarshalJSON jstr ks e"
proof -
  let ?d = "TrimSpace raw"
  from assms(3) have d: "marshalData e = Inr ?d" by (auto simp: marshalData_Inr)
  show ?thesis
  proof (cases "checkJSONStructure ?d")
    case (Inl err)
    then have "err = NotObjectError" and "?d \<noteq> []" and "?d \<noteq> ''null''"
      and "hd ?d \<noteq> CHR ''{''"
      by (simp_all add: checkJSONStructure_Inl)
    moreover from this assms(1) have "length ?d \<ge> 2"
      by (cases ?d) (auto simp: Suc_le_eq)
    ultimately show ?thesis
      using d assms(3) Inl by (simp add: MarshalJSON_def MarshalJSON_inline_def Let_def)
  next
    case (Inr flags)
    obtain n eo where f: "flags = (n, eo)" by (cases flags)
    with Inr have c: "checkJSONStructure ?d = Inr (n, eo)" by simp
    then have n: "n \<longleftrightarrow> ?d = [] \<or> ?d = ''null''" and eo: "eo \<longleftrightarrow> ?d = ''{}''"
      and hd: "\<not> n \<Longrightarrow> hd ?d = CHR ''{''"
      by (simp_all add: checkJSONStructure_Inr)
    have ok: "\<not> (?d \<noteq> [] \<and> ?d \<noteq> ''null'' \<and> length ?d \<ge> 2 \<and> hd ?d \<noteq> CHR ''{'')"
      using n hd by auto
    have one: "length (TrimSpace (tl ?d)) = 1 \<and> hd (TrimSpace (tl ?d)) = CHR ''}''
        \<longleftrightarrow> TrimSpace (tl ?d) = ''}''"
      by (cases "TrimSpace (tl ?d)") auto
    have t: "TrimSpace (tl ''{}'') = ''}''" by (simp add: TrimSpace_def isSpace_def)
    have flag: "(?d \<noteq> [] \<and> ?d \<noteq> ''null'' \<and> length ?d \<ge> 2 \<and> hd ?d = CHR ''{'' \<and>
         length (TrimSpace (tl ?d)) = 1 \<and> hd (TrimSpace (tl ?d)) = CHR ''}'') \<longleftrightarrow> eo"
      unfolding one eo using assms(2) t by auto
    obtain r e1 where m: "marshalMeta jstr ks e = (r, e1)" by (cases "marshalMeta jstr ks e")
    show ?thesis
    proof (cases r)
      case (Inl err)
      with m have m': "marshalMeta jstr ks e = (Inl err, e1)" by simp
      from MarshalJSON_inline_meta_error [OF d ok m'] d c m'
      show ?thesis by (simp add: MarshalJSON_def)
    next
      case (Inr mb)
      with m have m': "marshalMeta jstr ks e = (Inr mb, e1)" by simp
      from MarshalJSON_inline_splice [OF d ok m'] MarshalJSON_splice [OF d c m'] n flag
      show ?thesis by simp
    qed
  qed
qed




text \<open>
  The single-function variant lets a one-byte scalar through: the test for a non-object
  sits behind \<^verbatim>\<open>len(dataBytes) >= 2\<close>.  \<^verbatim>\<open>checkJSONStructure\<close> rejects it.
\<close>

lemma MarshalJSON_inline_one_byte:
  "MarshalJSON_inline plainString [] (bare permissive (Some int7))
     = (Inr ''7'', bare permissive (Some int7))
   \<and> MarshalJSON plainString [] (bare permissive (Some int7))
     = (Inl NotObjectError, bare permissive (Some int7))"
  by (simp add: int7_def MarshalJSON_def MarshalJSON_inline_def encode_defs permissive_def)

lemma TrimSpace_id:
  assumes "b \<noteq> []" and "\<not> isSpace (hd b)" and "\<not> isSpace (last b)"
  shows "TrimSpace b = b"
proof -
  from assms(1,2) have "dropWhile isSpace b = b" by (cases b) auto
  moreover from assms(1,3) have "rev b \<noteq> []" and "\<not> isSpace (hd (rev b))"
    by (simp_all add: hd_rev)
  then have "dropWhile isSpace (rev b) = rev b" by (cases "rev b") auto
  ultimately show ?thesis by (simp add: TrimSpace_def)
qed

lemma resolveCuries_no_links [simp]: "resolveCuries i [] ks = []"
  by (simp add: resolveCuries_def)

lemma marshalMeta_bare [simp]: "marshalMeta jstr ks (bare i d) = (Inr [], bare i d)"
  by (simp add: marshalMeta_def injectCuries_def bare_def)

text \<open>
  C7 (amended).  On a permissive registry without a generator for the type of the
  record, a record whose own encoding is an object (the bytes start with an opening and
  end with a closing brace) is wrapped into an envelope whose encoding is these very
  bytes, by both variants of \<^verbatim>\<open>MarshalJSON\<close>.
\<close>

theorem C7_passthrough:
  assumes "\<not> strictMode i" and "lookupGenerator i (TypeOf v) = None"
    and "json_Marshal v = Inr b" and "b \<noteq> []" and "hd b = CHR ''{''" and "last b = CHR ''}''"
  shows "Wrap i ctx (Some v) = Inr (bare i (Some v))
     \<and> MarshalJSON jstr ks (bare i (Some v)) = (Inr b, bare i (Some v))
     \<and> MarshalJSON_inline jstr ks (bare i (Some v)) = (Inr b, bare i (Some v))"
proof -
  have t: "TrimSpace b = b"
    using assms(4-6) by (intro TrimSpace_id) (simp_all add: isSpace_def)
  have d: "marshalData (bare i (Some v)) = Inr b"
    using assms(3) t by (simp add: marshalData_def bare_def)
  have c: "checkJSONStructure b = Inr (False, b = ''{}'')"
    using assms(4,5) by (auto simp: checkJSONStructure_Inr)
  have m: "marshalMeta jstr ks (bare i (Some v)) = (Inr [], bare i (Some v))" by simp
  have ok: "\<not> (b \<noteq> [] \<and> b \<noteq> ''null'' \<and> length b \<ge> 2 \<and> hd b \<noteq> CHR ''{'')"
    using assms(5) by simp
  have nn: "b \<noteq> ''null''" using assms(5) by auto
  from MarshalJSON_splice [OF d c m] MarshalJSON_inline_splice [OF d ok m] assms(1,2,4) nn
  show ?thesis by (simp add: Wrap_simps spliceJSON_def)
qed

text \<open>
  C7 as stated fails: on a permissive registry without generators the record \<^verbatim>\<open>42\<close>
  encodes to \<^verbatim>\<open>42\<close>, while encoding its envelope returns the data-shape error.
\<close>

theorem C7_counterexample:
  "\<not> strictMode permissive
   \<and> lookupGenerator permissive (TypeOf int42) = None
   \<and> json_Marshal int42 = Inr ''42''
   \<and> Wrap permissive () (Some int42) = Inr (bare permissive (Some int42))
   \<and> MarshalJSON plainString [] (bare permissive (Some int42))
       = (Inl NotObjectError, bare permissive (Some int42))"
  by (simp add: int42_def Wrap_simps lookupGenerator_def MarshalJSON_def encode_defs permissive_def)

theorem C7_witness:
  \<open>Wrap permissive () (Some objValue) = Inr (bare permissive (Some objValue))
   \<and> MarshalJSON plainString [] (bare permissive (Some objValue))
       = (Inr ''{"id":1}'', bare permissive (Some objValue))
   \<and> MarshalJSON_inline plainString [] (bare permissive (Some objValue))
       = (Inr ''{"id":1}'', bare permissive (Some objValue))\<close>
proof -
  have a: "\<not> strictMode permissive"
    and b: "lookupGenerator permissive (TypeOf objValue) = None"
    and c: \<open>json_Marshal objValue = Inr ''{"id":1}''\<close>
    by (simp_all add: permissive_def New_def lookupGenerator_def objValue_def)
  have d: \<open>''{"id":1}'' \<noteq> []\<close> \<open>hd ''{"id":1}'' = CHR ''{''\<close> \<open>last ''{"id":1}'' = CHR ''}''\<close>
    by simp_all
  from C7_passthrough [OF a b c d, of "()" plainString "[]"] show ?thesis .
qed

section \<open>Resolving curies\<close>

lemma IndexByte_takeWhile:
  "IndexByte xs c = (if c \<in> set xs then int (length (takeWhile (\<lambda>x. x \<noteq> c) xs)) else - 1)"
  by (induction xs) (auto simp: Let_def)

lemma curiePrefix_takeWhile:
  "curiePrefix rel = Some p \<longleftrightarrow>
     CHR '':'' \<in> set rel \<and> p = takeWhile (\<lambda>x. x \<noteq> CHR '':'') rel \<and> p \<noteq> []"
proof -
  have t: "take (length (takeWhile (\<lambda>x. x \<noteq> CHR '':'') rel)) rel
      = takeWhile (\<lambda>x. x \<noteq> CHR '':'') rel"
    by (simp add: takeWhile_eq_take [symmetric])
  show ?thesis
  proof (cases "CHR '':'' \<in> set rel")
    case True
    then show ?thesis
      by (cases "takeWhile (\<lambda>x. x \<noteq> CHR '':'') rel = []")
        (auto simp: curiePrefix_def IndexByte_takeWhile Let_def t)
  next
    case False
    then show ?thesis
      by (simp add: curiePrefix_def IndexByte_takeWhile Let_def)
  qed
qed

lemma curiePrefix_iff:
  "curiePrefix rel = Some p \<longleftrightarrow>
     p \<noteq> [] \<and> CHR '':'' \<notin> set p \<and> (\<exists>rest. rel = p @ CHR '':'' # rest)"
proof
  assume "curiePrefix rel = Some p"
  then have c: "CHR '':'' \<in> set rel" and p: "p = takeWhile (\<lambda>x. x \<noteq> CHR '':'') rel"
    and ne: "p \<noteq> []"
    by (auto simp: curiePrefix_takeWhile)
  from c have "dropWhile (\<lambda>x. x \<noteq> CHR '':'') rel \<noteq> []" by simp
  moreover from this have "hd (dropWhile (\<lambda>x. x \<noteq> CHR '':'') rel) = CHR '':''"
    using hd_dropWhile [of "\<lambda>x. x \<noteq> CHR '':''" rel] by simp
  ultimately obtain rest where "dropWhile (\<lambda>x. x \<noteq> CHR '':'') rel = CHR '':'' # rest"
    by (cases "dropWhile (\<lambda>x. x \<noteq> CHR '':'') rel") auto
  with p have "rel = p @ CHR '':'' # rest"
    using takeWhile_dropWhile_id [of "\<lambda>x. x \<noteq> CHR '':''" rel] by simp
  moreover from p have "CHR '':'' \<notin> set p" by (auto dest: set_takeWhileD)
  ultimately show "p \<noteq> [] \<and> CHR '':'' \<notin> set p \<and> (\<exists>rest. rel = p @ CHR '':'' # rest)"
    using ne by blast
next
  assume "p \<noteq> [] \<and> CHR '':'' \<notin> set p \<and> (\<exists>rest. rel = p @ CHR '':'' # rest)"
  then obtain rest where "p \<noteq> []" and "CHR '':'' \<notin> set p" and "rel = p @ CHR '':'' # rest"
    by blast
  moreover from this have "takeWhile (\<lambda>x. x \<noteq> CHR '':'') (p @ CHR '':'' # rest) = p"
    by (subst takeWhile_append2) auto
  ultimately show "curiePrefix rel = Some p"
    by (simp add: curiePrefix_takeWhile)
qed

lemma resolveStep_resolved: "resolveStep cur rel used = used @ resolved cur rel"
  by (simp add: resolveStep_def resolved_def curiePrefix_def Let_def split: option.splits)

lemma fold_resolveStep:
  "fold (resolveStep cur) ks acc = acc @ concat (map (resolved cur) ks)"
  by (induction ks arbitrary: acc) (simp_all add: resolveStep_resolved)

lemma resolved_no_curies [simp]: "resolved [] rel = []"
  by (simp add: resolved_def split: option.splits)

lemma range_order_Nil [simp]: "range_order [] ks \<longleftrightarrow> ks = []"
  by (auto simp: range_order_def)

lemma range_order_set: "range_order m ks \<Longrightarrow> set ks = fst ` set m"
proof -
  assume "range_order m ks"
  then have "mset ks = mset (map fst m)" by (simp add: range_order_def)
  then have "set ks = set (map fst m)" by (rule mset_eq_setD)
  then show ?thesis by simp
qed

lemma resolveCuries_concat:
  assumes "range_order lks ks"
  shows "resolveCuries i lks ks = concat (map (resolved (curies i)) ks)"
proof (cases "curies i = [] \<or> lks = []")
  case True
  with assms show ?thesis by (auto simp: resolveCuries_def)
next
  case False
  then show ?thesis by (simp add: resolveCuries_def fold_resolveStep)
qed

lemma set_resolved:
  "l \<in> set (resolved cur rel) \<longleftrightarrow>
     (\<exists>p href. curiePrefix rel = Some p \<and> map_of cur p = Some href \<and> l = curieLink p href)"
  by (cases "curiePrefix rel"; cases "map_of cur (the (curiePrefix rel))")
    (auto simp: resolved_def)

lemma count_resolved:
  "length (filter (\<lambda>l. Name l = p) (resolved cur rel)) =
     (if curiePrefix rel = Some p \<and> map_of cur p \<noteq> None then 1 else 0)"
  by (auto simp: resolved_def curieLink_def split: option.splits)

lemma count_concat_resolved:
  "length (filter (\<lambda>l. Name l = p) (concat (map (resolved cur) ks))) =
     (if map_of cur p \<noteq> None then length (filter (\<lambda>rel. curiePrefix rel = Some p) ks) else 0)"
  by (induction ks) (simp_all add: count_resolved)

lemma mset_concat_map:
  "mset (concat (map f ks)) = sum_mset (image_mset (\<lambda>k. mset (f k)) (mset ks))"
  by (induction ks) simp_all

lemma resolveCuries_mset:
  assumes "range_order lks ks1" and "range_order lks ks2"
  shows "mset (resolveCuries i lks ks1) = mset (resolveCuries i lks ks2)"
  using assms by (simp add: resolveCuries_concat mset_concat_map range_order_def)

lemma resolveCuries_count:
  assumes "range_order lks ks"
  shows "length (filter (\<lambda>l. Name l = p) (resolveCuries i lks ks)) =
     (if map_of (curies i) p \<noteq> None
      then length (filter (\<lambda>rel. curiePrefix rel = Some p) (map fst lks)) else 0)"
proof -
  from assms have "mset ks = mset (map fst lks)" by (simp add: range_order_def)
  then have "length (filter (\<lambda>rel. curiePrefix rel = Some p) ks)
      = length (filter (\<lambda>rel. curiePrefix rel = Some p) (map fst lks))"
    by (metis mset_filter size_mset)
  then show ?thesis
    using assms by (simp add: resolveCuries_concat count_concat_resolved)
qed

lemma set_resolveCuries:
  assumes "range_order lks ks"
  shows "l \<in> set (resolveCuries i lks ks) \<longleftrightarrow>
     (\<exists>rel p href. rel \<in> fst ` set lks \<and> curiePrefix rel = Some p \<and>
        map_of (curies i) p = Some href \<and> l = curieLink p href)"
  using assms range_order_set [OF assms]
  by (auto simp: resolveCuries_concat set_resolved)

text \<open>
  C4 (amended).  Whatever order the loop visits the link map in: every link that
  \<^verbatim>\<open>resolveCuries\<close> emits is the synthetic curies link (name the prefix, target its URI
  template, template flag set) of a registered prefix that some relation name of the map
  carries; every registered prefix carried by a relation name is emitted, and exactly
  once when exactly one relation name carries it; when no relation name carries a
  registered prefix the result is empty.  A relation name carries the prefix \<open>p\<close> when
  \<open>p\<close> is not empty, holds no colon and the name is \<open>p\<close>, a colon and any rest.
\<close>

theorem C4_resolveCuries:
  assumes "range_order lks ks"
  shows
   "(\<forall>l \<in> set (resolveCuries i lks ks). \<exists>rel p href. rel \<in> fst ` set lks \<and>
        curiePrefix rel = Some p \<and> map_of (curies i) p = Some href \<and> l = curieLink p href)
    \<and> (\<forall>rel p href. rel \<in> fst ` set lks \<and> curiePrefix rel = Some p \<and>
          map_of (curies i) p = Some href
        \<longrightarrow> curieLink p href \<in> set (resolveCuries i lks ks))
    \<and> (\<forall>p. map_of (curies i) p \<noteq> None \<and>
          length (filter (\<lambda>rel. curiePrefix rel = Some p) (map fst lks)) = 1
        \<longrightarrow> length (filter (\<lambda>l. Name l = p) (resolveCuries i lks ks)) = 1)
    \<and> ((\<forall>rel \<in> fst ` set lks. \<forall>p. curiePrefix rel = Some p \<longrightarrow> map_of (curies i) p = None)
        \<longrightarrow> resolveCuries i lks ks = [])
    \<and> (\<forall>rel p. curiePrefix rel = Some p \<longleftrightarrow>
          p \<noteq> [] \<and> CHR '':'' \<notin> set p \<and> (\<exists>rest. rel = p @ CHR '':'' # rest))"
proof (intro conjI)
  show "\<forall>l \<in> set (resolveCuries i lks ks). \<exists>rel p href. rel \<in> fst ` set lks \<and>
        curiePrefix rel = Some p \<and> map_of (curies i) p = Some href \<and> l = curieLink p href"
    using set_resolveCuries [OF assms] by blast
  show "\<forall>rel p href. rel \<in> fst ` set lks \<and> curiePrefix rel = Some p \<and>
          map_of (curies i) p = Some href
        \<longrightarrow> curieLink p href \<in> set (resolveCuries i lks ks)"
    using set_resolveCuries [OF assms] by blast
  show "\<forall>p. map_of (curies i) p \<noteq> None \<and>
          length (filter (\<lambda>rel. curiePrefix rel = Some p) (map fst lks)) = 1
        \<longrightarrow> length (filter (\<lambda>l. Name l = p) (resolveCuries i lks ks)) = 1"
    by (simp add: resolveCuries_count [OF assms])
  show "(\<forall>rel \<in> fst ` set lks. \<forall>p. curiePrefix rel = Some p \<longrightarrow> map_of (curies i) p = None)
        \<longrightarrow> resolveCuries i lks ks = []"
  proof
    assume none: "\<forall>rel \<in> fst ` set lks. \<forall>p. curiePrefix rel = Some p \<longrightarrow> map_of (curies i) p = None"
    show "resolveCuries i lks ks = []"
    proof (cases "resolveCuries i lks ks")
      case Nil
      then show ?thesis .
    next
      case (Cons l ls)
      then have "l \<in> set (resolveCuries i lks ks)" by simp
      then obtain rel p href where "rel \<in> fst ` set lks" and "curiePrefix rel = Some p"
        and "map_of (curies i) p = Some href"
        unfolding set_resolveCuries [OF assms] by auto
      with none show ?thesis by fastforce
    qed
  qed
  show "\<forall>rel p. curiePrefix rel = Some p \<longleftrightarrow>
          p \<noteq> [] \<and> CHR '':'' \<notin> set p \<and> (\<exists>rest. rel = p @ CHR '':'' # rest)"
    using curiePrefix_iff by blast
qed

lemmas sample_defs =
  acmeInstance_def docInstance_def twoPrefixes_def samePrefix_def onePrefix_def
  acmeEnvelope_def objValue_def
  RegisterCurie_def range_order_def curiePrefix_def

text \<open>
  C4 as stated fails: with the one registered prefix \<^verbatim>\<open>acme\<close> and the two relations
  \<^verbatim>\<open>acme:a\<close> and \<^verbatim>\<open>acme:b\<close> two curies links are emitted for the prefix, not one; and the
  registered empty prefix is not emitted for the relation \<^verbatim>\<open>:x\<close>.
\<close>

theorem C4_counterexample:
  "range_order samePrefix [''acme:a'', ''acme:b'']
   \<and> map fst samePrefix = [''acme:a'', ''acme:b'']
   \<and> curies acmeInstance = [(''acme'', ''https://docs/{rel}'')]
   \<and> resolveCuries acmeInstance samePrefix [''acme:a'', ''acme:b'']
       = [curieLink ''acme'' ''https://docs/{rel}'', curieLink ''acme'' ''https://docs/{rel}'']
   \<and> resolveCuries (RegisterCurie [] ''https://docs/{rel}'' (New False :: (unit, unit) Instance))
         [('':x'', Single (newLink '':x'' ''/x''))] ['':x''] = []"
  by (simp add: sample_defs encode_defs)

theorem C4_witness:
  "range_order onePrefix [''acme:test'', ''self'']
   \<and> resolveCuries acmeInstance onePrefix [''acme:test'', ''self'']
       = [curieLink ''acme'' ''https://docs/{rel}'']
   \<and> length (filter (\<lambda>l. Name l = ''acme'')
         (resolveCuries acmeInstance onePrefix [''acme:test'', ''self''])) = 1
   \<and> resolveCuries (New False :: (unit, unit) Instance) onePrefix [''acme:test'', ''self''] = []
   \<and> curiePrefix ''acme:test'' = Some ''acme''"
proof -
  have ro: "range_order onePrefix [''acme:test'', ''self'']"
    by (simp add: sample_defs encode_defs)
  have keys: "fst ` set onePrefix = {''self'', ''acme:test''}"
    by (simp add: sample_defs encode_defs)
  have p1: "curiePrefix ''acme:test'' = Some ''acme''" and p2: "curiePrefix ''self'' = None"
    by (simp_all add: curiePrefix_def)
  have cur: "map_of (curies acmeInstance) ''acme'' = Some ''https://docs/{rel}''"
    by (simp add: sample_defs New_def)
  have one: "length (filter (\<lambda>rel. curiePrefix rel = Some ''acme'') (map fst onePrefix)) = 1"
    by (simp add: sample_defs encode_defs)
  have res: "resolveCuries acmeInstance onePrefix [''acme:test'', ''self'']
       = [curieLink ''acme'' ''https://docs/{rel}'']"
    by (simp add: sample_defs encode_defs)
  from C4_resolveCuries [OF ro, of acmeInstance] cur one
  have "length (filter (\<lambda>l. Name l = ''acme'')
         (resolveCuries acmeInstance onePrefix [''acme:test'', ''self''])) = 1"
    by simp
  moreover have "resolveCuries (New False :: (unit, unit) Instance) onePrefix
      [''acme:test'', ''self''] = []"
  proof -
    have "(\<forall>rel \<in> fst ` set onePrefix. \<forall>p. curiePrefix rel = Some p \<longrightarrow>
              map_of (curies (New False :: (unit, unit) Instance)) p = None)
          \<longrightarrow> resolveCuries (New False :: (unit, unit) Instance) onePrefix
                [''acme:test'', ''self''] = []"
      by (rule conjunct1 [OF conjunct2 [OF conjunct2 [OF conjunct2
            [OF C4_resolveCuries [OF ro, of "New False"]]]]])
    then show ?thesis by (simp add: keys p1 p2 New_def)
  qed
  ultimately show ?thesis using ro res p1 by simp
qed

lemma injectCuries_cong:
  "resolveCuries (inst e) (links e) ks1 = resolveCuries (inst e) (links e) ks2 \<Longrightarrow>
     injectCuries ks1 e = injectCuries ks2 e"
  by (simp add: injectCuries_def)

lemma MarshalJSON_cong:
  assumes "injectCuries ks1 e = injectCuries ks2 e"
  shows "MarshalJSON jstr ks1 e = MarshalJSON jstr ks2 e"
    and "MarshalJSON_inline jstr ks1 e = MarshalJSON_inline jstr ks2 e"
  unfolding MarshalJSON_def marshalMeta_def MarshalJSON_inline_def assms by (rule refl)+

lemma mset_eq_all_same:
  assumes "mset xs = mset ys" and "\<forall>a \<in> set xs. \<forall>b \<in> set xs. a = b"
  shows "xs = ys"
proof (cases xs)
  case Nil
  with assms(1) show ?thesis by simp
next
  case (Cons x xs')
  from assms(1) have len: "length ys = length xs" and st: "set ys = set xs"
    by (auto dest: mset_eq_length mset_eq_setD)
  from Cons assms(2) have "\<forall>y \<in> set xs. y = x" by simp
  then have "replicate (length xs) x = xs" by (rule replicate_length_same)
  moreover from \<open>\<forall>y \<in> set xs. y = x\<close> st have "\<forall>y \<in> set ys. y = x" by simp
  then have "replicate (length ys) x = ys" by (rule replicate_length_same)
  ultimately show ?thesis using len by simp
qed

lemma resolveCuries_same_name:
  assumes ro: "range_order lks ks"
    and l: "l \<in> set (resolveCuries i lks ks)" and l': "l' \<in> set (resolveCuries i lks ks)"
    and n: "Name l = Name l'"
  shows "l = l'"
proof -
  from l l' obtain p href p' href'
    where "map_of (curies i) p = Some href" and "l = curieLink p href"
      and "map_of (curies i) p' = Some href'" and "l' = curieLink p' href'"
    unfolding set_resolveCuries [OF ro] by auto
  with n show ?thesis by (simp add: curieLink_def)
qed

text \<open>
  C8 (amended).  Take two encode runs over the same envelope, each with an order in
  which \<^verbatim>\<open>resolveCuries\<close> may visit the link map.  The curies the two runs emit are the
  same links up to their order; and when the emitted curies all carry one prefix, both
  variants of \<^verbatim>\<open>MarshalJSON\<close> return the same bytes and the same envelope in both runs.
\<close>

theorem C8_encode_order:
  assumes "range_order (links e) ks1" and "range_order (links e) ks2"
  shows "mset (resolveCuries (inst e) (links e) ks1) = mset (resolveCuries (inst e) (links e) ks2)
     \<and> ((\<forall>l \<in> set (resolveCuries (inst e) (links e) ks1).
           \<forall>l' \<in> set (resolveCuries (inst e) (links e) ks1). Name l = Name l')
         \<longrightarrow> MarshalJSON jstr ks1 e = MarshalJSON jstr ks2 e
           \<and> MarshalJSON_inline jstr ks1 e = MarshalJSON_inline jstr ks2 e)"
proof (intro conjI impI)
  show m: "mset (resolveCuries (inst e) (links e) ks1) = mset (resolveCuries (inst e) (links e) ks2)"
    using assms by (rule resolveCuries_mset)
  assume "\<forall>l \<in> set (resolveCuries (inst e) (links e) ks1).
           \<forall>l' \<in> set (resolveCuries (inst e) (links e) ks1). Name l = Name l'"
  then have "\<forall>l \<in> set (resolveCuries (inst e) (links e) ks1).
           \<forall>l' \<in> set (resolveCuries (inst e) (links e) ks1). l = l'"
    using resolveCuries_same_name [OF assms(1)] by blast
  with m have "resolveCuries (inst e) (links e) ks1 = resolveCuries (inst e) (links e) ks2"
    by (rule mset_eq_all_same)
  then have i: "injectCuries ks1 e = injectCuries ks2 e" by (rule injectCuries_cong)
  from i show "MarshalJSON jstr ks1 e = MarshalJSON jstr ks2 e" by (rule MarshalJSON_cong)
  from i show "MarshalJSON_inline jstr ks1 e = MarshalJSON_inline jstr ks2 e"
    by (rule MarshalJSON_cong)
qed

theorem C8_witness:
  "range_order (links acmeEnvelope) [''self'', ''acme:test'']
   \<and> range_order (links acmeEnvelope) [''acme:test'', ''self'']
   \<and> MarshalJSON plainString [''self'', ''acme:test''] acmeEnvelope
     = MarshalJSON plainString [''acme:test'', ''self''] acmeEnvelope"
proof -
  have r1: "range_order (links acmeEnvelope) [''self'', ''acme:test'']"
    and r2: "range_order (links acmeEnvelope) [''acme:test'', ''self'']"
    by (simp_all add: sample_defs encode_defs)
  have "resolveCuries (inst acmeEnvelope) (links acmeEnvelope) [''self'', ''acme:test'']
      = [curieLink ''acme'' ''https://docs/{rel}'']"
    by (simp add: sample_defs encode_defs)
  then have same: "\<forall>l \<in> set (resolveCuries (inst acmeEnvelope) (links acmeEnvelope)
        [''self'', ''acme:test'']).
      \<forall>l' \<in> set (resolveCuries (inst acmeEnvelope) (links acmeEnvelope)
        [''self'', ''acme:test'']). Name l = Name l'"
    by simp
  have "MarshalJSON plainString [''self'', ''acme:test''] acmeEnvelope
     = MarshalJSON plainString [''acme:test'', ''self''] acmeEnvelope"
    by (rule conjunct1 [OF mp [OF conjunct2 [OF C8_encode_order [OF r1 r2]] same]])
  with r1 r2 show ?thesis by (intro conjI)
qed

text \<open>
  C8 as stated fails: with two prefixes in use, the same envelope encodes to different
  bytes for the two orders in which the loop may visit the two relations: the curies
  array comes out in the order of the visit.
\<close>

theorem C8_counterexample:
  \<open>range_order (links twoPrefixes) [''acme:a'', ''doc:b'']
   \<and> range_order (links twoPrefixes) [''doc:b'', ''acme:a'']
   \<and> fst (MarshalJSON plainString [''acme:a'', ''doc:b''] twoPrefixes)
     = Inr ''{"id":1,"_links":{"acme:a":{"href":"/a"},"curies":[{"href":"https://docs/{rel}","templated":true,"name":"acme"},{"href":"https://doc/{rel}","templated":true,"name":"doc"}],"doc:b":{"href":"/b"}}}''
   \<and> fst (MarshalJSON plainString [''doc:b'', ''acme:a''] twoPrefixes)
     = Inr ''{"id":1,"_links":{"acme:a":{"href":"/a"},"curies":[{"href":"https://doc/{rel}","templated":true,"name":"doc"},{"href":"https://docs/{rel}","templated":true,"name":"acme"}],"doc:b":{"href":"/b"}}}''\<close>
proof -
  have "range_order (links twoPrefixes) [''acme:a'', ''doc:b'']"
    and "range_order (links twoPrefixes) [''doc:b'', ''acme:a'']"
    by (simp_all add: sample_defs encode_defs)
  moreover have \<open>fst (MarshalJSON plainString [''acme:a'', ''doc:b''] twoPrefixes)
     = Inr ''{"id":1,"_links":{"acme:a":{"href":"/a"},"curies":[{"href":"https://docs/{rel}","templated":true,"name":"acme"},{"href":"https://doc/{rel}","templated":true,"name":"doc"}],"doc:b":{"href":"/b"}}}''\<close>
    by code_simp
  moreover have \<open>fst (MarshalJSON plainString [''doc:b'', ''acme:a''] twoPrefixes)
     = Inr ''{"id":1,"_links":{"acme:a":{"href":"/a"},"curies":[{"href":"https://doc/{rel}","templated":true,"name":"doc"},{"href":"https://docs/{rel}","templated":true,"name":"acme"}],"doc:b":{"href":"/b"}}}''\<close>
    by code_simp
  ultimately show ?thesis by (intro conjI)
qed

section \<open>Encoding twice\<close>

lemma length_commaJoin:
  "length (commaJoin xs) = sum_list (map length xs) + (length xs - 1)"
  by (induction xs rule: commaJoin.induct) simp_all

lemma sum_list_sort_key:
  fixes f :: "'a \<Rightarrow> nat"
  shows "sum_list (map f (sort_key g xs)) = sum_list (map f xs)"
proof -
  have "sum_mset (image_mset f (mset (sort_key g xs))) = sum_mset (image_mset f (mset xs))"
    by simp
  then show ?thesis by (simp only: mset_map [symmetric] sum_mset_sum_list)
qed

lemma length_encodeLinks:
  "length (encodeLinks jstr al) =
     2 + (sum_list (map (\<lambda>(k, v). length (jstr k) + 1 + length (encodeLinkval jstr v)) al)
          + (length al - 1))"
proof -
  have "sum_list (map length (map (\<lambda>(k, v). jstr k @ '':'' @ encodeLinkval jstr v)
          (sort_key fst al)))
      = sum_list (map (\<lambda>(k, v). length (jstr k) + 1 + length (encodeLinkval jstr v))
          (sort_key fst al))"
    by (simp add: comp_def case_prod_unfold)
  then show ?thesis
    by (simp add: encodeLinks_def length_commaJoin sum_list_sort_key)
qed

lemma update_absent: "map_of al k = None \<Longrightarrow> AList.update k v al = al @ [(k, v)]"
  by (induction al) (auto split: if_splits)

lemma update_last:
  "map_of al k = None \<Longrightarrow> AList.update k v' (al @ [(k, v)]) = al @ [(k, v')]"
  by (induction al) (auto split: if_splits)

lemma map_of_snoc_absent: "map_of al k = None \<Longrightarrow> map_of (al @ [(k, v)]) k = Some v"
  by (simp add: map_add_def)

lemma injectCuries_fresh:
  assumes "resolveCuries (inst e) (links e) ks \<noteq> []" and "map_of (links e) ''curies'' = None"
  shows "injectCuries ks e =
     e\<lparr>links := links e @ [(''curies'', LinkSlice (resolveCuries (inst e) (links e) ks))]\<rparr>"
  using assms by (simp add: injectCuries_def addLinkRaw_def update_absent Let_def)

lemma injectCuries_again:
  assumes "resolveCuries (inst e) (links e) ks \<noteq> []"
    and "links e = al @ [(''curies'', LinkSlice cs)]" and "map_of al ''curies'' = None"
  shows "injectCuries ks e =
     e\<lparr>links := al @ [(''curies'',
        AnySlice [LinkSlice cs, LinkSlice (resolveCuries (inst e) (links e) ks)])]\<rparr>"
  using assms by (simp add: injectCuries_def addLinkRaw_def update_last map_add_def Let_def)

lemma resolved_curies [simp]: "resolved cur ''curies'' = []"
  by (simp add: resolved_def curiePrefix_def)

lemma resolveCuries_extended:
  assumes "range_order al ks1" and "range_order (al @ [(''curies'', v)]) ks2"
  shows "mset (resolveCuries i (al @ [(''curies'', v)]) ks2) = mset (resolveCuries i al ks1)"
proof -
  from assms have "mset ks2 = mset ks1 + {#''curies''#}"
    by (simp add: range_order_def)
  then show ?thesis
    using assms by (simp add: resolveCuries_concat mset_concat_map)
qed

lemma json_Marshal_meta_links:
  assumes "json_Marshal_meta jstr lks emb = Inr m" and "lks \<noteq> []" and "lks' \<noteq> []"
  shows "\<exists>m'. json_Marshal_meta jstr lks' emb = Inr m' \<and>
     length m' + length (encodeLinks jstr lks) = length m + length (encodeLinks jstr lks')"
  using assms
  by (auto simp: json_Marshal_meta_def Let_def split: if_splits sum.splits)

lemma spliceJSON_length:
  assumes "spliceJSON d m n eo = Inr out" and "m \<noteq> []" and "length m < length m'"
  shows "\<exists>out'. spliceJSON d m' n eo = Inr out' \<and> length out < length out'"
  using assms by (auto simp: spliceJSON_def split: if_splits)


lemma MarshalJSON_Inr:
  assumes "MarshalJSON jstr ks e = (Inr out, e1)"
  obtains d n eo m where "marshalData e = Inr d" and "checkJSONStructure d = Inr (n, eo)"
    and "marshalMeta jstr ks e = (Inr m, e1)" and "spliceJSON d m n eo = Inr out"
  using assms
  by (auto simp: MarshalJSON_def split: sum.splits prod.splits)

text \<open>
  C10.  Take an envelope with no \<^verbatim>\<open>curies\<close> entry for which at least one prefix resolves,
  and a first encode run that succeeds.  The run leaves the resolved curies in the link
  map under \<^verbatim>\<open>curies\<close>.  A second run on the envelope as the first one left it succeeds
  too, resolves the same curies again and stores the two-element list of the first and
  the second value under \<^verbatim>\<open>curies\<close>; its output is strictly longer than, and so different
  from, the first output.
\<close>

theorem C10_encode_not_idempotent:
  assumes ro1: "range_order (links e) ks1"
    and res: "resolveCuries (inst e) (links e) ks1 \<noteq> []"
    and fresh: "map_of (links e) ''curies'' = None"
    and enc1: "MarshalJSON jstr ks1 e = (Inr out1, e1)"
    and ro2: "range_order (links e1) ks2"
  shows "map_of (links e1) ''curies'' = Some (LinkSlice (resolveCuries (inst e) (links e) ks1))
     \<and> (\<exists>out2 e2. MarshalJSON jstr ks2 e1 = (Inr out2, e2)
          \<and> map_of (links e2) ''curies'' =
              Some (AnySlice [LinkSlice (resolveCuries (inst e) (links e) ks1),
                              LinkSlice (resolveCuries (inst e1) (links e1) ks2)])
          \<and> mset (resolveCuries (inst e1) (links e1) ks2)
              = mset (resolveCuries (inst e) (links e) ks1)
          \<and> length out1 < length out2 \<and> out2 \<noteq> out1)"
proof -
  let ?R1 = "resolveCuries (inst e) (links e) ks1"
  let ?R2 = "resolveCuries (inst e1) (links e1) ks2"
  let ?al = "links e"
  from enc1 obtain d n eo m1 where d: "marshalData e = Inr d"
    and c: "checkJSONStructure d = Inr (n, eo)"
    and mm1: "marshalMeta jstr ks1 e = (Inr m1, e1)" and s1: "spliceJSON d m1 n eo = Inr out1"
    by (rule MarshalJSON_Inr)
  from mm1 have e1: "e1 = injectCuries ks1 e"
    and r1: "Inr m1 = (if links e1 = [] \<and> embedded e1 = [] then Inr []
          else json_Marshal_meta jstr (links e1) (embedded e1))"
    by (simp_all add: marshalMeta_cases)
  from e1 injectCuries_fresh [OF res fresh]
  have e1': "e1 = e\<lparr>links := ?al @ [(''curies'', LinkSlice ?R1)]\<rparr>" by simp
  then have l1: "links e1 = ?al @ [(''curies'', LinkSlice ?R1)]"
    and i1: "inst e1 = inst e" and em1: "embedded e1 = embedded e" and d1: "Data e1 = Data e"
    by simp_all
  from l1 r1 have j1: "json_Marshal_meta jstr (links e1) (embedded e1) = Inr m1" by simp
  then have m1: "m1 \<noteq> []" by (rule json_Marshal_meta_nonempty)
  have c1: "map_of (links e1) ''curies'' = Some (LinkSlice ?R1)"
    unfolding l1 using fresh by (rule map_of_snoc_absent)
  from ro2 have ro2': "range_order (?al @ [(''curies'', LinkSlice ?R1)]) ks2"
    by (simp add: l1)
  have ms: "mset ?R2 = mset ?R1"
    unfolding l1 i1 using ro1 ro2' by (rule resolveCuries_extended)
  with res have res2: "?R2 \<noteq> []" by auto
  define e2 where "e2 = injectCuries ks2 e1"
  from injectCuries_again [OF res2 l1 fresh]
  have e2': "e2 = e1\<lparr>links := ?al @ [(''curies'', AnySlice [LinkSlice ?R1, LinkSlice ?R2])]\<rparr>"
    by (simp add: e2_def)
  then have l2: "links e2 = ?al @ [(''curies'', AnySlice [LinkSlice ?R1, LinkSlice ?R2])]"
    and em2: "embedded e2 = embedded e1"
    by simp_all
  have c2: "map_of (links e2) ''curies'' = Some (AnySlice [LinkSlice ?R1, LinkSlice ?R2])"
    unfolding l2 using fresh by (rule map_of_snoc_absent)
  from l1 l2 have ne: "links e1 \<noteq> []" "links e2 \<noteq> []" by simp_all
  from json_Marshal_meta_links [OF j1 ne]
  obtain m2 where j2: "json_Marshal_meta jstr (links e2) (embedded e1) = Inr m2"
    and len: "length m2 + length (encodeLinks jstr (links e1))
        = length m1 + length (encodeLinks jstr (links e2))"
    by blast
  have "length (encodeLinks jstr (links e1)) < length (encodeLinks jstr (links e2))"
    unfolding l1 l2 by (simp add: length_encodeLinks length_commaJoin)
  with len have lt: "length m1 < length m2" by simp
  have mm2: "marshalMeta jstr ks2 e1 = (Inr m2, e2)"
    using j2 ne(2) em2 by (simp add: marshalMeta_cases e2_def)
  from d d1 have d2: "marshalData e1 = Inr d" by (simp add: marshalData_def)
  from spliceJSON_length [OF s1 m1 lt]
  obtain out2 where s2: "spliceJSON d m2 n eo = Inr out2" and longer: "length out1 < length out2"
    by blast
  from MarshalJSON_splice [OF d2 c mm2] s2
  have "MarshalJSON jstr ks2 e1 = (Inr out2, e2)" by simp
  moreover from longer have "out2 \<noteq> out1" by auto
  ultimately show ?thesis using c1 c2 ms longer by blast
qed


theorem C10_witness:
  \<open>fst (MarshalJSON plainString [''self'', ''acme:test''] acmeEnvelope)
     = Inr ''{"id":1,"_links":{"acme:test":{"href":"/x"},"curies":[{"href":"https://docs/{rel}","templated":true,"name":"acme"}],"self":{"href":"/x"}}}''
   \<and> fst (MarshalJSON plainString [''curies'', ''self'', ''acme:test'']
         (snd (MarshalJSON plainString [''self'', ''acme:test''] acmeEnvelope)))
     = Inr ''{"id":1,"_links":{"acme:test":{"href":"/x"},"curies":[[{"href":"https://docs/{rel}","templated":true,"name":"acme"}],[{"href":"https://docs/{rel}","templated":true,"name":"acme"}]],"self":{"href":"/x"}}}''
   \<and> map_of (links (snd (MarshalJSON plainString [''self'', ''acme:test''] acmeEnvelope))) ''curies''
       = Some (LinkSlice [curieLink ''acme'' ''https://docs/{rel}''])
   \<and> (\<exists>out2 e2. MarshalJSON plainString [''curies'', ''self'', ''acme:test'']
           (snd (MarshalJSON plainString [''self'', ''acme:test''] acmeEnvelope)) = (Inr out2, e2)
         \<and> map_of (links e2) ''curies'' =
             Some (AnySlice [LinkSlice [curieLink ''acme'' ''https://docs/{rel}''],
                             LinkSlice [curieLink ''acme'' ''https://docs/{rel}'']])
         \<and> 138 < length out2)\<close>
proof -
  let ?ks1 = "[''self'', ''acme:test'']"
  let ?ks2 = "[''curies'', ''self'', ''acme:test'']"
  let ?out1 = \<open>''{"id":1,"_links":{"acme:test":{"href":"/x"},"curies":[{"href":"https://docs/{rel}","templated":true,"name":"acme"}],"self":{"href":"/x"}}}''\<close>
  let ?e1 = "snd (MarshalJSON plainString ?ks1 acmeEnvelope)"
  have "map fst (links acmeEnvelope) = ?ks1" by code_simp
  then have ro1: "range_order (links acmeEnvelope) ?ks1" by (simp add: range_order_def)
  have r1: "resolveCuries (inst acmeEnvelope) (links acmeEnvelope) ?ks1
      = [curieLink ''acme'' ''https://docs/{rel}'']"
    by code_simp
  then have res: "resolveCuries (inst acmeEnvelope) (links acmeEnvelope) ?ks1 \<noteq> []"
    by (simp only: list.distinct not_False_eq_True)
  have fresh: "map_of (links acmeEnvelope) ''curies'' = None" by code_simp
  have o1: "fst (MarshalJSON plainString ?ks1 acmeEnvelope) = Inr ?out1" by code_simp
  have enc1: "MarshalJSON plainString ?ks1 acmeEnvelope = (Inr ?out1, ?e1)"
    unfolding o1 [symmetric] by (rule prod.collapse [symmetric])
  have "map fst (links ?e1) = [''self'', ''acme:test'', ''curies'']" by code_simp
  then have ro2: "range_order (links ?e1) ?ks2" by (simp add: range_order_def)
  have r2: "resolveCuries (inst ?e1) (links ?e1) ?ks2 = [curieLink ''acme'' ''https://docs/{rel}'']"
    by code_simp
  have o2: \<open>fst (MarshalJSON plainString ?ks2 ?e1)
     = Inr ''{"id":1,"_links":{"acme:test":{"href":"/x"},"curies":[[{"href":"https://docs/{rel}","templated":true,"name":"acme"}],[{"href":"https://docs/{rel}","templated":true,"name":"acme"}]],"self":{"href":"/x"}}}''\<close>
    by code_simp
  have len: "length ?out1 = 138" by simp
  note main = C10_encode_not_idempotent [OF ro1 res fresh enc1 ro2, unfolded r1 r2 len]
  from main have "\<exists>out2 e2. MarshalJSON plainString ?ks2 ?e1 = (Inr out2, e2)
         \<and> map_of (links e2) ''curies'' =
             Some (AnySlice [LinkSlice [curieLink ''acme'' ''https://docs/{rel}''],
                             LinkSlice [curieLink ''acme'' ''https://docs/{rel}'']])
         \<and> 138 < length out2"
    by blast
  with o1 o2 conjunct1 [OF main] show ?thesis by (intro conjI)
qed

end
